theory Spec2Isabelle
  imports Main
begin

section \<open>Data model (types.ts)\<close>

text \<open>
  \<^verbatim>\<open>PlayerColor = 'black' | 'white'\<close>; a cell is \<^verbatim>\<open>PlayerColor | null\<close>, with
  \<open>None\<close> for \<^verbatim>\<open>null\<close>; \<^verbatim>\<open>BoardState\<close> is an array of rows, indexed \<^verbatim>\<open>board[y][x]\<close>.
  A coordinate object \<^verbatim>\<open>{x, y}\<close> is the pair \<open>(x, y)\<close>.
\<close>

datatype PlayerColor = Black | White

type_synonym Cell = "PlayerColor option"

type_synonym BoardState = "Cell list list"

type_synonym coord = "int \<times> int"

definition BOARD_SIZE :: int where
  "BOARD_SIZE = 19"

text \<open>
  \<^verbatim>\<open>MoveResult\<close>: \<^verbatim>\<open>success\<close> is always present, the other three fields are optional.
  The type parameter is what a board is: its contents (\<open>BoardState\<close>) in the functional
  model, a reference into the store in the model with mutable arrays.
\<close>

record 'b MoveResult =
  success :: bool
  newBoard :: "'b option"
  capturedCount :: "nat option"
  error :: "string option"

text \<open>The four rejection messages of \<^verbatim>\<open>tryMakeMove\<close>, under the names the specification uses.\<close>

definition OutOfBounds :: string where
  "OutOfBounds = ''Invalid position''"

definition Occupied :: string where
  "Occupied = ''Position occupied''"

definition Suicide :: string where
  "Suicide = ''Suicide move is forbidden''"

definition KoViolation :: string where
  "KoViolation = ''Ko rule: cannot repeat position immediately''"

definition failure :: "string \<Rightarrow> 'b MoveResult" where
  "failure msg = \<lparr>success = False, newBoard = None, capturedCount = None, error = Some msg\<rparr>"

section \<open>Array access\<close>

text \<open>
  \<^verbatim>\<open>board[y][x]\<close>. The outer \<open>None\<close> stands for an index that is not an element of
  the array, where JavaScript yields \<^verbatim>\<open>undefined\<close> (and throws a TypeError when the row
  itself is missing). Every board the engine is meant for has \<^verbatim>\<open>BOARD_SIZE\<close> rows of
  \<^verbatim>\<open>BOARD_SIZE\<close> cells (\<open>wf_board\<close> below), and on such a board every read and write
  of the code is in range.
\<close>

definition cellAt :: "BoardState \<Rightarrow> int \<Rightarrow> int \<Rightarrow> Cell option" where
  "cellAt board x y =
     (if 0 \<le> y \<and> y < int (length board) \<and> 0 \<le> x \<and> x < int (length (board ! nat y))
      then Some (board ! nat y ! nat x) else None)"

text \<open>\<^verbatim>\<open>board[y][x] = v\<close> on a board value; an index outside the arrays leaves it as it is.\<close>

definition setCell :: "BoardState \<Rightarrow> int \<Rightarrow> int \<Rightarrow> Cell \<Rightarrow> BoardState" where
  "setCell board x y v =
     (if 0 \<le> y \<and> y < int (length board) \<and> 0 \<le> x \<and> x < int (length (board ! nat y))
      then board[nat y := (board ! nat y)[nat x := v]] else board)"

definition wf_board :: "BoardState \<Rightarrow> bool" where
  "wf_board board \<longleftrightarrow>
     int (length board) = BOARD_SIZE \<and> list_all (\<lambda>row. int (length row) = BOARD_SIZE) board"

section \<open>Grid helpers\<close>

definition isOnBoard :: "int \<Rightarrow> int \<Rightarrow> bool" where
  "isOnBoard x y \<longleftrightarrow> x \<ge> 0 \<and> x < BOARD_SIZE \<and> y \<ge> 0 \<and> y < BOARD_SIZE"

definition getNeighbors :: "int \<Rightarrow> int \<Rightarrow> coord list" where
  "getNeighbors x y =
     (if x > 0 then [(x - 1, y)] else []) @
     (if x < BOARD_SIZE - 1 then [(x + 1, y)] else []) @
     (if y > 0 then [(x, y - 1)] else []) @
     (if y < BOARD_SIZE - 1 then [(x, y + 1)] else [])"

section \<open>Keys of coordinates\<close>

text \<open>
  The sets \<^verbatim>\<open>visited\<close> and \<^verbatim>\<open>liberties\<close> hold strings: the key of a coordinate is
  the template literal \<^verbatim>\<open>`${x},${y}`\<close>, the two numbers in decimal (with a minus sign
  when negative) separated by a comma.
\<close>

definition digitChar :: "nat \<Rightarrow> char" where
  "digitChar d = ''0123456789'' ! d"

fun digits :: "nat \<Rightarrow> string" where
  "digits n = (if n < 10 then [digitChar n] else digits (n div 10) @ [digitChar (n mod 10)])"

declare digits.simps [simp del]

definition numberToString :: "int \<Rightarrow> string" where
  "numberToString i = (if i < 0 then CHR ''-'' # digits (nat (- i)) else digits (nat i))"

definition key :: "coord \<Rightarrow> string" where
  "key n = numberToString (fst n) @ '','' @ numberToString (snd n)"

section \<open>Groups and liberties\<close>

text \<open>The state of the traversal, and one round of the inner \<^verbatim>\<open>for\<close> loop.\<close>

record BfsState =
  queue :: "coord list"
  visited :: "string set"
  group :: "coord list"
  liberties :: "string set"

definition visitNeighbor :: "BoardState \<Rightarrow> PlayerColor \<Rightarrow> BfsState \<Rightarrow> coord \<Rightarrow> BfsState" where
  "visitNeighbor board color st n =
     (let neighborColor = cellAt board (fst n) (snd n);
          k = key n
      in if neighborColor = Some None then st\<lparr>liberties := insert k (liberties st)\<rparr>
         else if neighborColor = Some (Some color) \<and> k \<notin> visited st
           then st\<lparr>visited := insert k (visited st), queue := queue st @ [n]\<rparr>
         else st)"

text \<open>The body of the \<^verbatim>\<open>while\<close> loop, for a non-empty queue.\<close>

definition bfsStep :: "BoardState \<Rightarrow> PlayerColor \<Rightarrow> BfsState \<Rightarrow> BfsState" where
  "bfsStep board color st =
     (let current = hd (queue st);
          st1 = st\<lparr>queue := tl (queue st), group := group st @ [current]\<rparr>
      in foldl (visitNeighbor board color) st1 (getNeighbors (fst current) (snd current)))"

text \<open>The cells of a board: the index pairs that are elements of the arrays.\<close>

definition cells :: "BoardState \<Rightarrow> coord set" where
  "cells board = {(x, y). cellAt board x y \<noteq> None}"

lemma finite_cells: "finite (cells board)"
proof -
  let ?idx = "SIGMA y:{..<length board}. {..<length (board ! y)}"
  let ?f = "\<lambda>(y, x). (int x, int y)"
  have "cells board \<subseteq> ?f ` ?idx"
  proof
    fix p assume "p \<in> cells board"
    then obtain x y where p: "p = (x, y)" and c: "cellAt board x y \<noteq> None"
      by (auto simp: cells_def)
    from c have r: "0 \<le> y" "y < int (length board)" "0 \<le> x" "x < int (length (board ! nat y))"
      by (auto simp: cellAt_def split: if_splits)
    then have "(nat y, nat x) \<in> ?idx"
      by auto
    moreover have "?f (nat y, nat x) = p"
      using r p by simp
    ultimately show "p \<in> ?f ` ?idx"
      by (metis (no_types, lifting) image_eqI)
  qed
  moreover have "finite (?f ` ?idx)"
    by (intro finite_imageI finite_SigmaI) auto
  ultimately show ?thesis by (rule finite_subset)
qed

text \<open>
  The loop ends because every round takes one coordinate off the queue and only cells
  whose key was not yet in \<^verbatim>\<open>visited\<close> are put on it.
\<close>

definition bfsMeasure :: "BoardState \<Rightarrow> BfsState \<Rightarrow> nat" where
  "bfsMeasure board st = length (queue st) + 2 * card (key ` cells board - visited st)"

lemma visitNeighbor_measure:
  "bfsMeasure board (visitNeighbor board color st n) \<le> bfsMeasure board st"
proof (cases "cellAt board (fst n) (snd n) = Some (Some color) \<and> key n \<notin> visited st")
  case True
  then have "n \<in> cells board"
    by (cases n) (auto simp: cells_def)
  with True have "key n \<in> key ` cells board - visited st" by simp
  moreover have "finite (key ` cells board - visited st)"
    by (simp add: finite_cells)
  ultimately have "card (key ` cells board - insert (key n) (visited st))
                     < card (key ` cells board - visited st)"
    by (metis Diff_insert card_Diff1_less)
  with True show ?thesis
    by (simp add: visitNeighbor_def bfsMeasure_def Let_def)
next
  case False
  then show ?thesis
    by (auto simp: visitNeighbor_def bfsMeasure_def Let_def)
qed

lemma foldl_visitNeighbor_measure:
  "bfsMeasure board (foldl (visitNeighbor board color) st ns) \<le> bfsMeasure board st"
proof (induction ns arbitrary: st)
  case Nil
  show ?case by simp
next
  case (Cons n ns)
  have "bfsMeasure board (foldl (visitNeighbor board color) (visitNeighbor board color st n) ns)
          \<le> bfsMeasure board (visitNeighbor board color st n)"
    by (rule Cons.IH)
  also have "\<dots> \<le> bfsMeasure board st"
    by (rule visitNeighbor_measure)
  finally show ?case by simp
qed

lemma bfsStep_measure:
  assumes "queue st \<noteq> []"
  shows "bfsMeasure board (bfsStep board color st) < bfsMeasure board st"
proof -
  let ?st1 = "st\<lparr>queue := tl (queue st), group := group st @ [hd (queue st)]\<rparr>"
  have "bfsMeasure board (bfsStep board color st) \<le> bfsMeasure board ?st1"
    unfolding bfsStep_def Let_def by (rule foldl_visitNeighbor_measure)
  also have "\<dots> < bfsMeasure board st"
    using assms by (simp add: bfsMeasure_def)
  finally show ?thesis .
qed

text \<open>\<^verbatim>\<open>while (queue.length > 0) { ... }\<close>\<close>

function bfsLoop :: "BoardState \<Rightarrow> PlayerColor \<Rightarrow> BfsState \<Rightarrow> BfsState" where
  "bfsLoop board color st =
     (if queue st = [] then st else bfsLoop board color (bfsStep board color st))"
  by pat_completeness auto
termination
  by (relation "measure (\<lambda>(board, color, st). bfsMeasure board st)")
     (simp_all add: bfsStep_measure)

declare bfsLoop.simps [simp del]

text \<open>
  \<^verbatim>\<open>getGroupAndLiberties\<close> returns \<^verbatim>\<open>{ group, liberties: liberties.size }\<close>, here the
  pair of the two. \<^verbatim>\<open>!color\<close> holds for \<^verbatim>\<open>null\<close> and for \<^verbatim>\<open>undefined\<close>.
\<close>

definition getGroupAndLiberties :: "BoardState \<Rightarrow> int \<Rightarrow> int \<Rightarrow> coord list \<times> nat" where
  "getGroupAndLiberties board x y =
     (case cellAt board x y of
        Some (Some color) \<Rightarrow>
          (let st = bfsLoop board color
                      \<lparr>queue = [(x, y)], visited = {key (x, y)}, group = [], liberties = {}\<rparr>
           in (group st, card (liberties st)))
      | _ \<Rightarrow> ([], 0))"

section \<open>The board fingerprint\<close>

text \<open>
  \<^verbatim>\<open>JSON.stringify(board)\<close>: an array is its elements between brackets, separated by
  commas; a colour is its name in double quotes; \<^verbatim>\<open>null\<close> is \<^verbatim>\<open>null\<close>.
\<close>

definition cellJSON :: "Cell \<Rightarrow> string" where
  "cellJSON c =
     (case c of None \<Rightarrow> ''null''
      | Some Black \<Rightarrow> [CHR 0x22] @ ''black'' @ [CHR 0x22]
      | Some White \<Rightarrow> [CHR 0x22] @ ''white'' @ [CHR 0x22])"

fun joinComma :: "string list \<Rightarrow> string" where
  "joinComma [] = []"
| "joinComma [s] = s"
| "joinComma (s # t # ss) = s @ '','' @ joinComma (t # ss)"

definition arrayJSON :: "string list \<Rightarrow> string" where
  "arrayJSON items = ''['' @ joinComma items @ '']''"

definition stringify :: "BoardState \<Rightarrow> string" where
  "stringify board = arrayJSON (map (\<lambda>row. arrayJSON (map cellJSON row)) board)"

section \<open>The move function on board values\<close>

text \<open>
  \<^verbatim>\<open>tryMakeMove\<close> as a function of the contents of the board it is given. The working
  copy \<^verbatim>\<open>newBoard\<close> and the counter \<^verbatim>\<open>capturedCount\<close> are threaded through the two
  \<^verbatim>\<open>forEach\<close> loops as a pair.
\<close>

definition copyBoard :: "BoardState \<Rightarrow> BoardState" where
  "copyBoard board = map (\<lambda>row. row) board"

definition removeStone :: "BoardState \<times> nat \<Rightarrow> coord \<Rightarrow> BoardState \<times> nat" where
  "removeStone acc stone = (setCell (fst acc) (fst stone) (snd stone) None, snd acc + 1)"

definition captureNeighbor :: "PlayerColor \<Rightarrow> BoardState \<times> nat \<Rightarrow> coord \<Rightarrow> BoardState \<times> nat" where
  "captureNeighbor opponent acc n =
     (if cellAt (fst acc) (fst n) (snd n) = Some (Some opponent) then
        (let r = getGroupAndLiberties (fst acc) (fst n) (snd n) in
         if snd r = 0 then foldl removeStone acc (fst r) else acc)
      else acc)"

definition opponentOf :: "PlayerColor \<Rightarrow> PlayerColor" where
  "opponentOf player = (if player = Black then White else Black)"

text \<open>Steps 1 to 2 of the function: the board after placement and captures, and the count.\<close>

definition capturePass :: "BoardState \<Rightarrow> int \<Rightarrow> int \<Rightarrow> PlayerColor \<Rightarrow> BoardState \<times> nat" where
  "capturePass currentBoard x y player =
     foldl (captureNeighbor (opponentOf player))
       (setCell (copyBoard currentBoard) x y (Some player), 0) (getNeighbors x y)"

definition tryMakeMove ::
  "BoardState \<Rightarrow> int \<Rightarrow> int \<Rightarrow> PlayerColor \<Rightarrow> string list \<Rightarrow> BoardState MoveResult" where
  "tryMakeMove currentBoard x y player history =
     (if \<not> isOnBoard x y then failure OutOfBounds
      else if cellAt currentBoard x y \<noteq> Some None then failure Occupied
      else
        (let r = capturePass currentBoard x y player;
             selfLiberties = snd (getGroupAndLiberties (fst r) x y)
         in if selfLiberties = 0 then failure Suicide
            else
              (let boardHash = stringify (fst r) in
               if length history > 1 \<and> history ! (length history - 2) = boardHash
               then failure KoViolation
               else \<lparr>success = True, newBoard = Some (fst r),
                      capturedCount = Some (snd r), error = None\<rparr>)))"

section \<open>The move function on mutable arrays\<close>

text \<open>
  In the source a board is an array of references to row arrays, and \<^verbatim>\<open>tryMakeMove\<close>
  assigns to cells of rows. The store holds the row arrays allocated so far, a reference
  being an index into it; a board is the list of its row references (the code never
  assigns to an element of an outer array). \<open>readBoard\<close> gives the contents of a board.
\<close>

type_synonym store = "Cell list list"

type_synonym BoardRef = "nat list"

definition readBoard :: "store \<Rightarrow> BoardRef \<Rightarrow> BoardState" where
  "readBoard s b = map (\<lambda>r. s ! r) b"

definition validBoard :: "store \<Rightarrow> BoardRef \<Rightarrow> bool" where
  "validBoard s b \<longleftrightarrow> list_all (\<lambda>r. r < length s) b"

text \<open>\<^verbatim>\<open>board.map(row => [...row])\<close>: a new array for every row, with the same cells.\<close>

definition copyBoardS :: "store \<Rightarrow> BoardRef \<Rightarrow> BoardRef \<times> store" where
  "copyBoardS s b = ([length s ..< length s + length b], s @ map (\<lambda>r. s ! r) b)"

text \<open>\<^verbatim>\<open>board[y][x] = v\<close>: the row that \<^verbatim>\<open>board[y]\<close> refers to is updated in place.\<close>

definition writeCell :: "store \<Rightarrow> BoardRef \<Rightarrow> int \<Rightarrow> int \<Rightarrow> Cell \<Rightarrow> store" where
  "writeCell s b x y v =
     (if 0 \<le> y \<and> y < int (length b) \<and> 0 \<le> x \<and> x < int (length (s ! (b ! nat y)))
      then s[b ! nat y := (s ! (b ! nat y))[nat x := v]] else s)"

definition removeStoneS :: "BoardRef \<Rightarrow> store \<times> nat \<Rightarrow> coord \<Rightarrow> store \<times> nat" where
  "removeStoneS b acc stone = (writeCell (fst acc) b (fst stone) (snd stone) None, snd acc + 1)"

definition captureNeighborS ::
  "PlayerColor \<Rightarrow> BoardRef \<Rightarrow> store \<times> nat \<Rightarrow> coord \<Rightarrow> store \<times> nat" where
  "captureNeighborS opponent b acc n =
     (if cellAt (readBoard (fst acc) b) (fst n) (snd n) = Some (Some opponent) then
        (let r = getGroupAndLiberties (readBoard (fst acc) b) (fst n) (snd n) in
         if snd r = 0 then foldl (removeStoneS b) acc (fst r) else acc)
      else acc)"

definition tryMakeMoveS ::
  "store \<Rightarrow> BoardRef \<Rightarrow> int \<Rightarrow> int \<Rightarrow> PlayerColor \<Rightarrow> string list
     \<Rightarrow> BoardRef MoveResult \<times> store" where
  "tryMakeMoveS s currentBoard x y player history =
     (if \<not> isOnBoard x y then (failure OutOfBounds, s)
      else if cellAt (readBoard s currentBoard) x y \<noteq> Some None then (failure Occupied, s)
      else
        (let c = copyBoardS s currentBoard;
             nb = fst c;
             s2 = writeCell (snd c) nb x y (Some player);
             r = foldl (captureNeighborS (opponentOf player) nb) (s2, 0) (getNeighbors x y);
             selfLiberties = snd (getGroupAndLiberties (readBoard (fst r) nb) x y)
         in if selfLiberties = 0 then (failure Suicide, fst r)
            else
              (let boardHash = stringify (readBoard (fst r) nb) in
               if length history > 1 \<and> history ! (length history - 2) = boardHash
               then (failure KoViolation, fst r)
               else (\<lparr>success = True, newBoard = Some nb,
                       capturedCount = Some (snd r), error = None\<rparr>, fst r))))"

section \<open>Groups and liberties as sets\<close>

text \<open>
  What the traversal computes, as sets: two stones of one colour are linked when one is
  among the neighbours (\<^verbatim>\<open>getNeighbors\<close>) of the other; the group of a seed is what can be
  reached from it over links; the liberties of a set of stones are the empty cells among
  the neighbours of its members.
\<close>

definition stoneAt :: "BoardState \<Rightarrow> PlayerColor \<Rightarrow> coord \<Rightarrow> bool" where
  "stoneAt board color p \<longleftrightarrow> cellAt board (fst p) (snd p) = Some (Some color)"

definition emptyAt :: "BoardState \<Rightarrow> coord \<Rightarrow> bool" where
  "emptyAt board p \<longleftrightarrow> cellAt board (fst p) (snd p) = Some None"

definition adjacent :: "coord \<Rightarrow> coord \<Rightarrow> bool" where
  "adjacent p q \<longleftrightarrow> q \<in> set (getNeighbors (fst p) (snd p))"

definition link :: "BoardState \<Rightarrow> PlayerColor \<Rightarrow> (coord \<times> coord) set" where
  "link board color = {(p, q). stoneAt board color p \<and> stoneAt board color q \<and> adjacent p q}"

definition groupOf :: "BoardState \<Rightarrow> PlayerColor \<Rightarrow> coord \<Rightarrow> coord set" where
  "groupOf board color s = (link board color)\<^sup>* `` {s}"

definition libertiesOf :: "BoardState \<Rightarrow> coord set \<Rightarrow> coord set" where
  "libertiesOf board G = {e. emptyAt board e \<and> (\<exists>p\<in>G. adjacent p e)}"

text \<open>The invariant of the \<^verbatim>\<open>while\<close> loop, for the seed \<open>s\<close>.\<close>

definition bfsInv :: "BoardState \<Rightarrow> PlayerColor \<Rightarrow> coord \<Rightarrow> BfsState \<Rightarrow> bool" where
  "bfsInv board color s st \<longleftrightarrow>
     distinct (group st @ queue st)
     \<and> visited st = key ` (set (group st) \<union> set (queue st))
     \<and> s \<in> set (group st) \<union> set (queue st)
     \<and> set (group st) \<union> set (queue st) \<subseteq> groupOf board color s
     \<and> (\<forall>p\<in>set (group st). \<forall>q. (p, q) \<in> link board color \<longrightarrow>
            q \<in> set (group st) \<union> set (queue st))
     \<and> liberties st = key ` libertiesOf board (set (group st))"

text \<open>
  The stones taken off the board \<open>P\<close> (the board with the new stone on it) when the
  neighbours \<open>ns\<close> have been looked at: the groups of opponent stones among \<open>ns\<close> that
  have no liberty on \<open>P\<close>.
\<close>

definition capturedSet :: "BoardState \<Rightarrow> PlayerColor \<Rightarrow> coord set \<Rightarrow> coord set" where
  "capturedSet P opp N =
     {q. \<exists>n\<in>N. stoneAt P opp n \<and> libertiesOf P (groupOf P opp n) = {} \<and> q \<in> groupOf P opp n}"

definition capInv :: "BoardState \<Rightarrow> coord set \<Rightarrow> BoardState \<times> nat \<Rightarrow> bool" where
  "capInv P K acc \<longleftrightarrow>
     wf_board (fst acc)
     \<and> (\<forall>x y. cellAt (fst acc) x y = (if (x, y) \<in> K then Some None else cellAt P x y))
     \<and> snd acc = card K"

text \<open>The board with the new stone on it, before any capture.\<close>

definition placed :: "BoardState \<Rightarrow> int \<Rightarrow> int \<Rightarrow> PlayerColor \<Rightarrow> BoardState" where
  "placed board x y player = setCell (copyBoard board) x y (Some player)"

text \<open>The opponent stones that the move at \<open>(x, y)\<close> takes.\<close>

definition captured :: "BoardState \<Rightarrow> int \<Rightarrow> int \<Rightarrow> PlayerColor \<Rightarrow> coord set" where
  "captured board x y player =
     capturedSet (placed board x y player) (opponentOf player) (set (getNeighbors x y))"

text \<open>
  The same notions in the words of the specification, without \<^verbatim>\<open>getNeighbors\<close>: two
  coordinates are orthogonally adjacent when they differ by one step in one direction.
\<close>

definition orthAdjacent :: "coord \<Rightarrow> coord \<Rightarrow> bool" where
  "orthAdjacent p q \<longleftrightarrow> \<bar>fst p - fst q\<bar> + \<bar>snd p - snd q\<bar> = 1"

definition onEdge :: "int \<Rightarrow> bool" where
  "onEdge x \<longleftrightarrow> x = 0 \<or> x = BOARD_SIZE - 1"

definition specGroup :: "BoardState \<Rightarrow> PlayerColor \<Rightarrow> coord \<Rightarrow> coord set" where
  "specGroup board color s =
     {(p, q). stoneAt board color p \<and> stoneAt board color q \<and> orthAdjacent p q}\<^sup>* `` {s}"

definition specLiberties :: "BoardState \<Rightarrow> coord set \<Rightarrow> coord set" where
  "specLiberties board G = {e. emptyAt board e \<and> (\<exists>p\<in>G. orthAdjacent p e)}"

text \<open>
  The capture rule in the words of the specification, without the code's loop and without
  its choice of the opponent colour: \<open>specPlaced\<close> is the board with the stone of the
  mover on the target; \<open>specCaptured\<close> are the stones of every group of the other colour
  that has a member orthogonally adjacent to the target and no liberty on that board.
\<close>

definition specPlaced :: "BoardState \<Rightarrow> int \<Rightarrow> int \<Rightarrow> PlayerColor \<Rightarrow> BoardState" where
  "specPlaced board x y player = board[nat y := (board ! nat y)[nat x := Some player]]"

definition specCaptured :: "BoardState \<Rightarrow> int \<Rightarrow> int \<Rightarrow> PlayerColor \<Rightarrow> coord set" where
  "specCaptured board x y player =
     {q. \<exists>c n. c \<noteq> player \<and> orthAdjacent (x, y) n
           \<and> stoneAt (specPlaced board x y player) c n
           \<and> specLiberties (specPlaced board x y player)
                (specGroup (specPlaced board x y player) c n) = {}
           \<and> q \<in> specGroup (specPlaced board x y player) c n}"

text \<open>The board at the start of a game.\<close>

definition emptyBoard :: BoardState where
  "emptyBoard = replicate (nat BOARD_SIZE) (replicate (nat BOARD_SIZE) None)"

text \<open>An example position: black stones at (1, 1), (2, 1) and (1, 2).\<close>

definition lBoard :: BoardState where
  "lBoard = foldl (\<lambda>b p. setCell b (fst p) (snd p) (Some Black)) emptyBoard
              [(1, 1), (2, 1), (1, 2)]"

text \<open>
  The groups that the capture pass removes, read off the resolver on the board with the
  new stone: the opponent neighbours whose group has no liberty there, and their stones.
\<close>

definition deadNeighbors :: "BoardState \<Rightarrow> int \<Rightarrow> int \<Rightarrow> PlayerColor \<Rightarrow> coord set" where
  "deadNeighbors board x y player =
     {n \<in> set (getNeighbors x y).
        cellAt (placed board x y player) (fst n) (snd n) = Some (Some (opponentOf player))
        \<and> snd (getGroupAndLiberties (placed board x y player) (fst n) (snd n)) = 0}"

definition deadStones :: "BoardState \<Rightarrow> int \<Rightarrow> int \<Rightarrow> PlayerColor \<Rightarrow> coord set" where
  "deadStones board x y player =
     (\<Union>n\<in>deadNeighbors board x y player.
        set (fst (getGroupAndLiberties (placed board x y player) (fst n) (snd n))))"

text \<open>
  Example positions. On \<open>twoGroupsBoard\<close> the black stone at (0, 0) and the black pair
  (0, 2), (0, 3) both have (0, 1) as their last liberty.
\<close>

definition putStones :: "BoardState \<Rightarrow> PlayerColor \<Rightarrow> coord list \<Rightarrow> BoardState" where
  "putStones board color ps = foldl (\<lambda>b p. setCell b (fst p) (snd p) (Some color)) board ps"

definition twoGroupsBoard :: BoardState where
  "twoGroupsBoard =
     putStones (putStones emptyBoard Black [(0, 0), (0, 2), (0, 3)])
       White [(1, 0), (1, 2), (1, 3), (0, 4)]"

text \<open>
  The store \<open>s'\<close> extends the store \<open>s\<close>: every array of \<open>s\<close> is still there, with the
  cells it had.
\<close>

definition extends :: "store \<Rightarrow> store \<Rightarrow> bool" where
  "extends s s' \<longleftrightarrow> length s \<le> length s' \<and> (\<forall>a<length s. s' ! a = s ! a)"

text \<open>The rows of \<open>b\<close> are distinct arrays, allocated after the store had \<open>k\<close> arrays.\<close>

definition freshBoard :: "nat \<Rightarrow> store \<Rightarrow> BoardRef \<Rightarrow> bool" where
  "freshBoard k s b \<longleftrightarrow> distinct b \<and> (\<forall>r\<in>set b. k \<le> r \<and> r < length s)"

text \<open>What the caller sees of a result: the contents of the returned board.\<close>

definition readResult :: "store \<Rightarrow> BoardRef MoveResult \<Rightarrow> BoardState MoveResult" where
  "readResult s r =
     \<lparr>success = success r, newBoard = map_option (readBoard s) (newBoard r),
      capturedCount = capturedCount r, error = error r\<rparr>"

text \<open>
  The row references of a board whose rows are the first arrays of the store, and a
  position where the corner (0, 0) has no liberty for Black.
\<close>

definition rowRefs :: BoardRef where
  "rowRefs = [0 ..< nat BOARD_SIZE]"

definition suicideBoard :: BoardState where
  "suicideBoard = putStones emptyBoard White [(1, 0), (0, 1)]"

text \<open>
  The ko shape. On \<open>koBefore\<close> the white stone at (1, 1) is on its last liberty (2, 1);
  Black takes it there, which gives \<open>koBoard\<close>, where the black stone at (2, 1) is on
  its last liberty (1, 1).
\<close>

definition koBefore :: BoardState where
  "koBefore =
     putStones (putStones emptyBoard Black [(1, 0), (0, 1), (1, 2)])
       White [(2, 0), (3, 1), (2, 2), (1, 1)]"

definition koBoard :: BoardState where
  "koBoard =
     putStones (putStones emptyBoard Black [(1, 0), (0, 1), (1, 2), (2, 1)])
       White [(2, 0), (3, 1), (2, 2)]"

text \<open>
  The game after the ko was taken: White plays (10, 10) instead of retaking, and Black
  answers at (12, 12).
\<close>

definition koElsewhere :: BoardState where
  "koElsewhere = putStones koBoard White [(10, 10)]"

definition koAnswered :: BoardState where
  "koAnswered = putStones koElsewhere Black [(12, 12)]"

text \<open>
  No group without liberties: for every cell of the grid that is not empty, the resolver
  gives its group a liberty count other than zero.
\<close>

definition allCoords :: "coord list" where
  "allCoords = concat (map (\<lambda>y. map (\<lambda>x. (x, y)) [0 .. BOARD_SIZE - 1]) [0 .. BOARD_SIZE - 1])"

definition noDeadGroup :: "BoardState \<Rightarrow> bool" where
  "noDeadGroup board \<longleftrightarrow>
     list_all (\<lambda>p. cellAt board (fst p) (snd p) = Some None
                 \<or> snd (getGroupAndLiberties board (fst p) (snd p)) \<noteq> 0) allCoords"

section \<open>Correctness of the group resolver\<close>

lemma libertiesOf_subset_cells: "libertiesOf board G \<subseteq> cells board"
  by (auto simp: libertiesOf_def emptyAt_def cells_def)

lemma finite_libertiesOf: "finite (libertiesOf board G)"
  using libertiesOf_subset_cells finite_cells by (rule finite_subset)

lemma groupOf_stone:
  assumes "stoneAt board color s" "q \<in> groupOf board color s"
  shows "stoneAt board color q"
proof -
  from assms(2) have "(s, q) \<in> (link board color)\<^sup>*" by (simp add: groupOf_def)
  then show ?thesis using assms(1)
    by (induction rule: rtrancl_induct) (auto simp: link_def)
qed

subsection \<open>Keys are injective\<close>

lemma digitChar_inj: "a < 10 \<Longrightarrow> b < 10 \<Longrightarrow> digitChar a = digitChar b \<Longrightarrow> a = b"
proof -
  assume a: "a < 10" and b: "b < 10" and e: "digitChar a = digitChar b"
  have d: "distinct ''0123456789''" by simp
  have "a < length ''0123456789''" "b < length ''0123456789''" using a b by simp_all
  with d e show "a = b" unfolding digitChar_def by (simp only: nth_eq_iff_index_eq)
qed

lemma digitChar_set: "d < 10 \<Longrightarrow> digitChar d \<in> set ''0123456789''"
  unfolding digitChar_def by (rule nth_mem) simp

lemma digits_not_Nil: "digits n \<noteq> []"
  by (subst digits.simps) simp

lemma digits_set: "set (digits n) \<subseteq> set ''0123456789''"
proof (induction n rule: digits.induct)
  case (1 n)
  show ?case
  proof (cases "n < 10")
    case True
    then show ?thesis using digitChar_set [of n] by (subst digits.simps) simp
  next
    case False
    have "n mod 10 < 10" by simp
    then have "digitChar (n mod 10) \<in> set ''0123456789''" by (rule digitChar_set)
    with "1.IH" [OF False] False show ?thesis by (subst digits.simps) simp
  qed
qed

lemma digits_inj: "digits n = digits m \<Longrightarrow> n = m"
proof (induction n arbitrary: m rule: digits.induct)
  case (1 n)
  show ?case
  proof (cases "n < 10")
    case n: True
    show ?thesis
    proof (cases "m < 10")
      case True
      with n "1.prems" show ?thesis
        by (simp add: digits.simps [of n] digits.simps [of m] digitChar_inj)
    next
      case False
      then have "length (digits m) \<ge> 2"
        using digits_not_Nil [of "m div 10"]
        by (subst digits.simps) (simp add: Suc_le_eq)
      moreover have "length (digits n) = 1" using n by (subst digits.simps) simp
      ultimately show ?thesis using "1.prems" by simp
    qed
  next
    case n: False
    show ?thesis
    proof (cases "m < 10")
      case True
      have "length (digits n) \<ge> 2"
        using n digits_not_Nil [of "n div 10"]
        by (subst digits.simps) (simp add: Suc_le_eq)
      moreover have "length (digits m) = 1" using True by (subst digits.simps) simp
      ultimately show ?thesis using "1.prems" by simp
    next
      case False
      from "1.prems" n False
      have "digits (n div 10) @ [digitChar (n mod 10)] = digits (m div 10) @ [digitChar (m mod 10)]"
        by (simp add: digits.simps [of n] digits.simps [of m])
      then have d: "digits (n div 10) = digits (m div 10)"
        and c: "digitChar (n mod 10) = digitChar (m mod 10)" by simp_all
      from "1.IH" [OF n d] have "n div 10 = m div 10" .
      moreover from c have "n mod 10 = m mod 10" by (intro digitChar_inj) simp_all
      ultimately show ?thesis by (metis div_mult_mod_eq)
    qed
  qed
qed

lemma numberToString_inj: "numberToString i = numberToString j \<Longrightarrow> i = j"
proof -
  assume e: "numberToString i = numberToString j"
  have nm: "\<And>n. hd (digits n) \<noteq> CHR ''-''"
  proof -
    fix n
    have "hd (digits n) \<in> set (digits n)" using digits_not_Nil by simp
    then have "hd (digits n) \<in> set ''0123456789''" using digits_set by blast
    then show "hd (digits n) \<noteq> CHR ''-''" by auto
  qed
  show "i = j"
  proof (cases "i < 0"; cases "j < 0")
    assume "i < 0" "j < 0"
    with e have "nat (- i) = nat (- j)" by (simp add: numberToString_def digits_inj)
    with \<open>i < 0\<close> \<open>j < 0\<close> show ?thesis by simp
  next
    assume "i < 0" "\<not> j < 0"
    with e have "hd (digits (nat j)) = CHR ''-''"
      by (auto simp: numberToString_def dest: arg_cong [where f = hd])
    with nm show ?thesis by blast
  next
    assume "\<not> i < 0" "j < 0"
    with e have "hd (digits (nat i)) = CHR ''-''"
      by (auto simp: numberToString_def dest: arg_cong [where f = hd])
    with nm show ?thesis by blast
  next
    assume "\<not> i < 0" "\<not> j < 0"
    with e have "nat i = nat j" by (simp add: numberToString_def digits_inj)
    with \<open>\<not> i < 0\<close> \<open>\<not> j < 0\<close> show ?thesis by simp
  qed
qed

lemma numberToString_no_comma: "CHR '','' \<notin> set (numberToString i)"
  using digits_set [of "nat i"] digits_set [of "nat (- i)"]
  by (auto simp: numberToString_def)

lemma split_at_char:
  "c \<notin> set u \<Longrightarrow> c \<notin> set u' \<Longrightarrow> u @ c # v = u' @ c # v' \<Longrightarrow> u = u' \<and> v = v'"
proof (induction u arbitrary: u')
  case Nil
  then show ?case by (cases u') auto
next
  case (Cons a u)
  then show ?case by (cases u') auto
qed

lemma key_inj: "key p = key q \<Longrightarrow> p = q"
proof -
  assume "key p = key q"
  then have "numberToString (fst p) @ CHR '','' # numberToString (snd p)
           = numberToString (fst q) @ CHR '','' # numberToString (snd q)"
    by (simp add: key_def)
  then have "numberToString (fst p) = numberToString (fst q)
           \<and> numberToString (snd p) = numberToString (snd q)"
    by (rule split_at_char [OF numberToString_no_comma numberToString_no_comma])
  then show "p = q" using numberToString_inj by (simp add: prod_eq_iff)
qed

lemma inj_key: "inj_on key A"
  by (rule inj_onI) (rule key_inj)

subsection \<open>The traversal\<close>

text \<open>The effect of the inner loop over a list of neighbours.\<close>

lemma foldl_visitNeighbor:
  "\<exists>new. queue (foldl (visitNeighbor board color) st ns) = queue st @ new
       \<and> distinct new
       \<and> set new = {n \<in> set ns. stoneAt board color n \<and> key n \<notin> visited st}
       \<and> visited (foldl (visitNeighbor board color) st ns) = visited st \<union> key ` set new
       \<and> liberties (foldl (visitNeighbor board color) st ns)
           = liberties st \<union> key ` {n \<in> set ns. emptyAt board n}
       \<and> group (foldl (visitNeighbor board color) st ns) = group st"
proof (induction ns arbitrary: st)
  case Nil
  show ?case by simp
next
  case (Cons n ns)
  let ?st' = "visitNeighbor board color st n"
  from Cons.IH [of ?st'] obtain new where
    q: "queue (foldl (visitNeighbor board color) ?st' ns) = queue ?st' @ new"
    and d: "distinct new"
    and s: "set new = {n \<in> set ns. stoneAt board color n \<and> key n \<notin> visited ?st'}"
    and v: "visited (foldl (visitNeighbor board color) ?st' ns) = visited ?st' \<union> key ` set new"
    and l: "liberties (foldl (visitNeighbor board color) ?st' ns)
              = liberties ?st' \<union> key ` {n \<in> set ns. emptyAt board n}"
    and g: "group (foldl (visitNeighbor board color) ?st' ns) = group ?st'"
    by blast
  show ?case
  proof (cases "emptyAt board n")
    case True
    then have st': "?st' = st\<lparr>liberties := insert (key n) (liberties st)\<rparr>"
      by (simp add: visitNeighbor_def emptyAt_def Let_def)
    from True have ns: "\<not> stoneAt board color n"
      by (simp add: emptyAt_def stoneAt_def)
    show ?thesis
      apply (rule exI [of _ new])
      using q d s v l g True ns by (auto simp: st')
  next
    case False
    show ?thesis
    proof (cases "stoneAt board color n \<and> key n \<notin> visited st")
      case True
      then have st': "?st' = st\<lparr>visited := insert (key n) (visited st), queue := queue st @ [n]\<rparr>"
        using False by (simp add: visitNeighbor_def emptyAt_def stoneAt_def Let_def)
      have k: "\<And>m. key m = key n \<longleftrightarrow> m = n" using key_inj by blast
      show ?thesis
        apply (rule exI [of _ "n # new"])
        using q d s v l g True False by (auto simp: st' k)
    next
      case F2: False
      then have st': "?st' = st"
        using False by (auto simp: visitNeighbor_def emptyAt_def stoneAt_def Let_def)
      show ?thesis
        apply (rule exI [of _ new])
        using q d s v l g F2 False by (auto simp: st')
    qed
  qed
qed

lemma bfsInv_init:
  "bfsInv board color s \<lparr>queue = [s], visited = {key s}, group = [], liberties = {}\<rparr>"
  by (simp add: bfsInv_def groupOf_def libertiesOf_def)

lemma bfsInv_step:
  assumes inv: "bfsInv board color s st" and ne: "queue st \<noteq> []"
    and seed: "stoneAt board color s"
  shows "bfsInv board color s (bfsStep board color st)"
proof -
  obtain cur rest where qs: "queue st = cur # rest"
    using ne by (cases "queue st") auto
  let ?st1 = "st\<lparr>queue := rest, group := group st @ [cur]\<rparr>"
  let ?ns = "getNeighbors (fst cur) (snd cur)"
  let ?r = "foldl (visitNeighbor board color) ?st1 ?ns"
  let ?seen = "set (group st) \<union> set (queue st)"
  have r: "bfsStep board color st = ?r"
    by (simp add: bfsStep_def qs)
  from inv have i1: "distinct (group st @ queue st)"
    and i2: "visited st = key ` ?seen"
    and i3: "s \<in> ?seen"
    and i4: "?seen \<subseteq> groupOf board color s"
    and i5: "\<forall>p\<in>set (group st). \<forall>q. (p, q) \<in> link board color \<longrightarrow> q \<in> ?seen"
    and i6: "liberties st = key ` libertiesOf board (set (group st))"
    by (auto simp: bfsInv_def)
  have vis: "\<And>n. key n \<notin> visited st \<longleftrightarrow> n \<notin> ?seen"
    using key_inj by (auto simp: i2)
  from foldl_visitNeighbor [of board color ?st1 ?ns] obtain new where
    q: "queue ?r = rest @ new" and d: "distinct new"
    and sn0: "set new = {n \<in> set ?ns. stoneAt board color n \<and> key n \<notin> visited ?st1}"
    and v: "visited ?r = visited st \<union> key ` set new"
    and l: "liberties ?r = liberties st \<union> key ` {n \<in> set ?ns. emptyAt board n}"
    and g: "group ?r = group st @ [cur]"
    by auto
  have sn: "set new = {n \<in> set ?ns. stoneAt board color n} - ?seen"
    unfolding sn0 using vis by auto
  have curG: "cur \<in> groupOf board color s"
    using i4 qs by auto
  then have curS: "stoneAt board color cur"
    using seed groupOf_stone by blast
  have seen': "set (group ?r) \<union> set (queue ?r) = ?seen \<union> set new"
    by (auto simp: g q qs)
  have c1: "distinct (group ?r @ queue ?r)"
    using i1 d sn by (auto simp: g q qs)
  have c2: "visited ?r = key ` (set (group ?r) \<union> set (queue ?r))"
    by (simp add: seen' v i2 image_Un)
  have c3: "s \<in> set (group ?r) \<union> set (queue ?r)"
    using i3 by (simp add: seen')
  have c4: "set (group ?r) \<union> set (queue ?r) \<subseteq> groupOf board color s"
  proof -
    have "set new \<subseteq> groupOf board color s"
    proof
      fix n assume "n \<in> set new"
      then have "n \<in> set ?ns" "stoneAt board color n" using sn by auto
      then have "(cur, n) \<in> link board color"
        using curS by (simp add: link_def adjacent_def)
      with curG show "n \<in> groupOf board color s"
        by (auto simp: groupOf_def intro: rtrancl_into_rtrancl)
    qed
    with i4 show ?thesis by (simp add: seen')
  qed
  have c5: "\<forall>p\<in>set (group ?r). \<forall>q. (p, q) \<in> link board color \<longrightarrow>
              q \<in> set (group ?r) \<union> set (queue ?r)"
  proof (intro ballI allI impI)
    fix p q assume p: "p \<in> set (group ?r)" and pq: "(p, q) \<in> link board color"
    show "q \<in> set (group ?r) \<union> set (queue ?r)"
    proof (cases "p = cur")
      case True
      with pq have "q \<in> set ?ns" "stoneAt board color q"
        by (auto simp: link_def adjacent_def)
      then show ?thesis unfolding seen' using sn by auto
    next
      case False
      with p have "p \<in> set (group st)" by (simp add: g)
      with i5 pq have "q \<in> ?seen" by blast
      then show ?thesis unfolding seen' by simp
    qed
  qed
  have "libertiesOf board (set (group ?r))
          = libertiesOf board (set (group st)) \<union> {n \<in> set ?ns. emptyAt board n}"
    by (auto simp: g libertiesOf_def adjacent_def)
  then have c6: "liberties ?r = key ` libertiesOf board (set (group ?r))"
    by (simp add: l i6 image_Un)
  show ?thesis
    unfolding r bfsInv_def using c1 c2 c3 c4 c5 c6 by blast
qed

lemma bfsLoop_inv:
  "stoneAt board color s \<Longrightarrow> bfsInv board color s st \<Longrightarrow>
     bfsInv board color s (bfsLoop board color st) \<and> queue (bfsLoop board color st) = []"
proof (induction board color st rule: bfsLoop.induct)
  case (1 board color st)
  show ?case
  proof (cases "queue st = []")
    case True
    with "1.prems" show ?thesis by (simp add: bfsLoop.simps)
  next
    case False
    have "bfsInv board color s (bfsStep board color st)"
      using "1.prems" False by (simp add: bfsInv_step)
    with "1.IH" [OF False "1.prems"(1)] False show ?thesis
      by (simp add: bfsLoop.simps [of board color st])
  qed
qed

text \<open>What the resolver returns for an occupied seed.\<close>

lemma getGroupAndLiberties_stone:
  assumes "stoneAt board color (x, y)"
  shows "set (fst (getGroupAndLiberties board x y)) = groupOf board color (x, y)"
    and "distinct (fst (getGroupAndLiberties board x y))"
    and "snd (getGroupAndLiberties board x y)
           = card (libertiesOf board (groupOf board color (x, y)))"
proof -
  let ?init = "\<lparr>queue = [(x, y)], visited = {key (x, y)}, group = [], liberties = {}\<rparr>"
  let ?st = "bfsLoop board color ?init"
  have r: "getGroupAndLiberties board x y = (group ?st, card (liberties ?st))"
    using assms by (simp add: getGroupAndLiberties_def stoneAt_def Let_def)
  have inv: "bfsInv board color (x, y) ?st" and q: "queue ?st = []"
    using bfsLoop_inv [OF assms bfsInv_init] by auto
  from inv q have d: "distinct (group ?st)"
    and sub: "set (group ?st) \<subseteq> groupOf board color (x, y)"
    and seed: "(x, y) \<in> set (group ?st)"
    and closed: "\<forall>p\<in>set (group ?st). \<forall>q. (p, q) \<in> link board color \<longrightarrow> q \<in> set (group ?st)"
    and l: "liberties ?st = key ` libertiesOf board (set (group ?st))"
    by (auto simp: bfsInv_def)
  have "groupOf board color (x, y) \<subseteq> set (group ?st)"
  proof
    fix q assume "q \<in> groupOf board color (x, y)"
    then have "((x, y), q) \<in> (link board color)\<^sup>*" by (simp add: groupOf_def)
    then show "q \<in> set (group ?st)"
      using seed closed by (induction rule: rtrancl_induct) blast+
  qed
  with sub have eq: "set (group ?st) = groupOf board color (x, y)" by blast
  show "set (fst (getGroupAndLiberties board x y)) = groupOf board color (x, y)"
    by (simp add: r eq)
  show "distinct (fst (getGroupAndLiberties board x y))"
    by (simp add: r d)
  show "snd (getGroupAndLiberties board x y)
           = card (libertiesOf board (groupOf board color (x, y)))"
    by (simp add: r l eq card_image inj_key)
qed

lemma getGroupAndLiberties_no_stone:
  "(\<forall>color. \<not> stoneAt board color (x, y)) \<Longrightarrow> getGroupAndLiberties board x y = ([], 0)"
  by (auto simp: getGroupAndLiberties_def stoneAt_def split: option.splits)

section \<open>Boards of the right shape\<close>

lemma cellAt_wf:
  "wf_board board \<Longrightarrow>
     cellAt board x y = (if isOnBoard x y then Some (board ! nat y ! nat x) else None)"
  by (auto simp: wf_board_def cellAt_def isOnBoard_def list_all_length)

lemma cellAt_setCell:
  "cellAt (setCell board x y v) x' y' =
     (if x' = x \<and> y' = y \<and> cellAt board x y \<noteq> None then Some v else cellAt board x' y')"
proof (cases "0 \<le> y \<and> y < int (length board) \<and> 0 \<le> x \<and> x < int (length (board ! nat y))")
  case False
  then have "setCell board x y v = board" "cellAt board x y = None"
    by (auto simp: setCell_def cellAt_def)
  then show ?thesis by simp
next
  case True
  let ?row = "(board ! nat y)[nat x := v]"
  have sc: "setCell board x y v = board[nat y := ?row]"
    using True by (simp add: setCell_def)
  have c: "cellAt board x y \<noteq> None"
    using True by (simp add: cellAt_def)
  have ny: "nat y < length board" and nx: "nat x < length (board ! nat y)"
    using True by linarith+
  show ?thesis
  proof (cases "0 \<le> y' \<and> y' < int (length board)")
    case False
    then show ?thesis using True by (auto simp: sc cellAt_def)
  next
    case y': True
    show ?thesis
    proof (cases "y' = y")
      case True
      then have row: "board[nat y := ?row] ! nat y' = ?row"
        using ny by simp
      show ?thesis
        using True \<open>0 \<le> y \<and> y < int (length board) \<and> 0 \<le> x \<and> x < int (length (board ! nat y))\<close>
        unfolding sc cellAt_def row
        by (auto simp: nth_list_update)
    next
      case False
      then have "nat y' \<noteq> nat y" using y' True by auto
      then have row: "board[nat y := ?row] ! nat y' = board ! nat y'"
        by simp
      show ?thesis
        using False unfolding sc cellAt_def row by simp
    qed
  qed
qed

lemma wf_board_setCell: "wf_board board \<Longrightarrow> wf_board (setCell board x y v)"
  by (auto simp: wf_board_def setCell_def list_all_length nth_list_update)

lemma copyBoard_id: "copyBoard board = board"
  by (simp add: copyBoard_def)

lemma board_eqI:
  assumes "wf_board a" "wf_board b" "\<And>x y. cellAt a x y = cellAt b x y"
  shows "a = b"
proof (rule nth_equalityI)
  show len: "length a = length b"
    using assms(1,2) by (simp add: wf_board_def)
  fix i assume i: "i < length a"
  then have ib: "i < length b" using len by simp
  have la: "int (length (a ! i)) = BOARD_SIZE" and lb: "int (length (b ! i)) = BOARD_SIZE"
    using assms(1,2) i ib by (auto simp: wf_board_def list_all_length)
  show "a ! i = b ! i"
  proof (rule nth_equalityI)
    show "length (a ! i) = length (b ! i)" using la lb by simp
    fix j assume j: "j < length (a ! i)"
    have "cellAt a (int j) (int i) = cellAt b (int j) (int i)" by (rule assms(3))
    then show "a ! i ! j = b ! i ! j"
      using i ib j la lb by (simp add: cellAt_def)
  qed
qed

lemma stoneAt_onBoard: "wf_board board \<Longrightarrow> stoneAt board color p \<Longrightarrow> isOnBoard (fst p) (snd p)"
  by (simp add: stoneAt_def cellAt_wf split: if_splits)

lemma adjacent_sym:
  "adjacent p q \<Longrightarrow> isOnBoard (fst p) (snd p) \<Longrightarrow> isOnBoard (fst q) (snd q) \<and> adjacent q p"
  by (cases p; cases q)
     (auto simp: adjacent_def getNeighbors_def isOnBoard_def BOARD_SIZE_def split: if_splits)

lemma link_sym: "wf_board board \<Longrightarrow> sym (link board color)"
  by (rule symI) (auto simp: link_def dest: stoneAt_onBoard adjacent_sym)

lemma groupOf_sym:
  assumes "wf_board board" "q \<in> groupOf board color p"
  shows "p \<in> groupOf board color q"
proof -
  have "sym ((link board color)\<^sup>*)"
    using assms(1) by (simp add: link_sym sym_rtrancl)
  with assms(2) show ?thesis
    by (auto simp: groupOf_def dest: symD)
qed

lemma groupOf_trans:
  "q \<in> groupOf board color p \<Longrightarrow> r \<in> groupOf board color q \<Longrightarrow> r \<in> groupOf board color p"
  by (auto simp: groupOf_def)

lemma groupOf_self: "p \<in> groupOf board color p"
  by (simp add: groupOf_def)

lemma groupOf_eq:
  assumes "wf_board board" "q \<in> groupOf board color p"
  shows "groupOf board color q = groupOf board color p"
  using assms groupOf_sym groupOf_trans by blast

lemma groupOf_cong:
  assumes seed: "stoneAt b color s"
    and keep: "\<And>p. p \<in> groupOf b color s \<Longrightarrow> stoneAt b' color p"
    and nonew: "\<And>p q. p \<in> groupOf b color s \<Longrightarrow> adjacent p q \<Longrightarrow> stoneAt b' color q
                  \<Longrightarrow> stoneAt b color q"
  shows "groupOf b' color s = groupOf b color s"
proof (intro equalityI subsetI)
  fix q assume "q \<in> groupOf b' color s"
  then have "(s, q) \<in> (link b' color)\<^sup>*" by (simp add: groupOf_def)
  then show "q \<in> groupOf b color s"
  proof (induction rule: rtrancl_induct)
    case base
    show ?case by (rule groupOf_self)
  next
    case (step p q)
    from step.IH seed have "stoneAt b color p" by (rule groupOf_stone [rotated])
    moreover from step.hyps(2) have "adjacent p q" "stoneAt b' color q"
      by (auto simp: link_def)
    ultimately have "(p, q) \<in> link b color"
      using nonew [OF step.IH] by (simp add: link_def)
    with step.IH show ?case
      by (auto simp: groupOf_def intro: rtrancl_into_rtrancl)
  qed
next
  fix q assume "q \<in> groupOf b color s"
  then have "(s, q) \<in> (link b color)\<^sup>*" by (simp add: groupOf_def)
  then show "q \<in> groupOf b' color s"
  proof (induction rule: rtrancl_induct)
    case base
    show ?case by (rule groupOf_self)
  next
    case (step p q)
    have pG: "p \<in> groupOf b color s" using step.hyps(1) by (simp add: groupOf_def)
    then have qG: "q \<in> groupOf b color s"
      using step.hyps(2) by (auto simp: groupOf_def intro: rtrancl_into_rtrancl)
    have "(p, q) \<in> link b' color"
      using keep [OF pG] keep [OF qG] step.hyps(2) by (simp add: link_def)
    with step.IH show ?case
      by (auto simp: groupOf_def intro: rtrancl_into_rtrancl)
  qed
qed

lemma libertiesOf_cong:
  assumes "\<And>p e. p \<in> G \<Longrightarrow> adjacent p e \<Longrightarrow> emptyAt b' e = emptyAt b e"
  shows "libertiesOf b' G = libertiesOf b G"
  using assms by (auto simp: libertiesOf_def)

lemma groupOf_mono:
  assumes "\<And>p. stoneAt b color p \<Longrightarrow> stoneAt b' color p"
  shows "groupOf b color s \<subseteq> groupOf b' color s"
proof -
  have "link b color \<subseteq> link b' color"
    using assms by (auto simp: link_def)
  then have "(link b color)\<^sup>* \<subseteq> (link b' color)\<^sup>*" by (rule rtrancl_mono)
  then show ?thesis by (auto simp: groupOf_def)
qed

lemma groupOf_step:
  "p \<in> groupOf b color s \<Longrightarrow> (p, q) \<in> link b color \<Longrightarrow> q \<in> groupOf b color s"
  by (auto simp: groupOf_def intro: rtrancl_into_rtrancl)

lemma groupOf_subset_cells:
  assumes "stoneAt board color s"
  shows "groupOf board color s \<subseteq> cells board"
proof
  fix q assume "q \<in> groupOf board color s"
  with assms have "stoneAt board color q" by (rule groupOf_stone)
  then show "q \<in> cells board" by (cases q) (simp add: stoneAt_def cells_def)
qed

section \<open>The capture pass, step by step\<close>

lemma foldl_removeStone:
  "snd (foldl removeStone acc grp) = snd acc + length grp
   \<and> (wf_board (fst acc) \<longrightarrow> wf_board (fst (foldl removeStone acc grp)))
   \<and> (\<forall>x y. cellAt (fst (foldl removeStone acc grp)) x y =
         (if (x, y) \<in> set grp \<and> cellAt (fst acc) x y \<noteq> None then Some None
          else cellAt (fst acc) x y))"
proof (induction grp arbitrary: acc)
  case Nil
  show ?case by simp
next
  case (Cons stone grp)
  let ?acc' = "removeStone acc stone"
  have a: "fst ?acc' = setCell (fst acc) (fst stone) (snd stone) None" "snd ?acc' = snd acc + 1"
    by (simp_all add: removeStone_def)
  have c: "\<And>x y. cellAt (fst ?acc') x y =
      (if (x, y) = stone \<and> cellAt (fst acc) x y \<noteq> None then Some None else cellAt (fst acc) x y)"
    by (cases stone) (auto simp: removeStone_def cellAt_setCell)
  have w: "wf_board (fst acc) \<longrightarrow> wf_board (fst ?acc')"
    by (simp add: a wf_board_setCell)
  from Cons.IH [of ?acc'] have
    i1: "snd (foldl removeStone ?acc' grp) = snd ?acc' + length grp"
    and i2: "wf_board (fst ?acc') \<longrightarrow> wf_board (fst (foldl removeStone ?acc' grp))"
    and i3: "\<And>x y. cellAt (fst (foldl removeStone ?acc' grp)) x y =
         (if (x, y) \<in> set grp \<and> cellAt (fst ?acc') x y \<noteq> None then Some None
          else cellAt (fst ?acc') x y)"
    by blast+
  have "snd (foldl removeStone acc (stone # grp)) = snd acc + length (stone # grp)"
    using i1 a by simp
  moreover have "wf_board (fst acc) \<longrightarrow> wf_board (fst (foldl removeStone acc (stone # grp)))"
    using i2 w by simp
  moreover have "\<forall>x y. cellAt (fst (foldl removeStone acc (stone # grp))) x y =
         (if (x, y) \<in> set (stone # grp) \<and> cellAt (fst acc) x y \<noteq> None then Some None
          else cellAt (fst acc) x y)"
    by (auto simp: i3 c)
  ultimately show ?case by blast
qed

lemma capturedSet_stone: "q \<in> capturedSet P opp N \<Longrightarrow> stoneAt P opp q"
  by (auto simp: capturedSet_def intro: groupOf_stone)

lemma capturedSet_closed:
  "p \<in> capturedSet P opp N \<Longrightarrow> (p, q) \<in> link P opp \<Longrightarrow> q \<in> capturedSet P opp N"
  by (auto simp: capturedSet_def intro: groupOf_step)

lemma capturedSet_group:
  assumes "wf_board P" "q \<in> capturedSet P opp N"
  shows "groupOf P opp q \<subseteq> capturedSet P opp N"
    and "libertiesOf P (groupOf P opp q) = {}"
proof -
  from assms(2) obtain n where n: "n \<in> N" "stoneAt P opp n"
    "libertiesOf P (groupOf P opp n) = {}" "q \<in> groupOf P opp n"
    by (auto simp: capturedSet_def)
  have eq: "groupOf P opp q = groupOf P opp n"
    using assms(1) n(4) by (rule groupOf_eq)
  show "groupOf P opp q \<subseteq> capturedSet P opp N"
    using n by (auto simp: eq capturedSet_def)
  show "libertiesOf P (groupOf P opp q) = {}"
    using n(3) by (simp add: eq)
qed

lemma capturedSet_insert:
  "capturedSet P opp (insert n N) =
     (if stoneAt P opp n \<and> libertiesOf P (groupOf P opp n) = {}
      then groupOf P opp n \<union> capturedSet P opp N else capturedSet P opp N)"
  by (auto simp: capturedSet_def)

lemma finite_capturedSet: "finite (capturedSet P opp N)"
proof -
  have "capturedSet P opp N \<subseteq> cells P"
    using capturedSet_stone by (fastforce simp: cells_def stoneAt_def)
  then show ?thesis using finite_cells by (rule finite_subset)
qed

text \<open>
  A group of \<open>P\<close> that was not taken is the same group, with the same liberties, on the
  board where the taken stones are gone.
\<close>

lemma untouched_group:
  assumes wf: "wf_board P"
    and B: "\<And>x y. cellAt B x y = (if (x, y) \<in> K then Some None else cellAt P x y)"
    and K: "K = capturedSet P opp N"
    and n: "stoneAt B opp n"
  shows "stoneAt P opp n" and "groupOf P opp n \<inter> K = {}"
    and "groupOf B opp n = groupOf P opp n"
    and "libertiesOf B (groupOf P opp n) = libertiesOf P (groupOf P opp n)"
proof -
  have nK: "n \<notin> K" and nP: "stoneAt P opp n"
    using n B [of "fst n" "snd n"] by (auto simp: stoneAt_def split: if_splits)
  show "stoneAt P opp n" by (rule nP)
  show dis: "groupOf P opp n \<inter> K = {}"
  proof (rule ccontr)
    assume "groupOf P opp n \<inter> K \<noteq> {}"
    then obtain q where q: "q \<in> groupOf P opp n" "q \<in> K" by blast
    from wf q(1) have "n \<in> groupOf P opp q" by (rule groupOf_sym)
    moreover have "groupOf P opp q \<subseteq> K"
      using capturedSet_group(1) [OF wf] q(2) K by blast
    ultimately show False using nK by blast
  qed
  have stB: "\<And>q. stoneAt B opp q \<longleftrightarrow> stoneAt P opp q \<and> q \<notin> K"
    using B by (auto simp: stoneAt_def)
  show "groupOf B opp n = groupOf P opp n"
  proof (rule groupOf_cong [OF nP])
    fix p assume "p \<in> groupOf P opp n"
    then show "stoneAt B opp p"
      using dis groupOf_stone [OF nP] by (auto simp: stB)
  next
    fix p q assume "stoneAt B opp q"
    then show "stoneAt P opp q" by (simp add: stB)
  qed
  show "libertiesOf B (groupOf P opp n) = libertiesOf P (groupOf P opp n)"
  proof (rule libertiesOf_cong)
    fix p e assume p: "p \<in> groupOf P opp n" and a: "adjacent p e"
    have "e \<notin> K"
    proof
      assume e: "e \<in> K"
      then have "stoneAt P opp e" using K capturedSet_stone by blast
      moreover have "stoneAt P opp p" using nP p by (rule groupOf_stone)
      ultimately have "(p, e) \<in> link P opp" using a by (simp add: link_def)
      with p have "e \<in> groupOf P opp n" by (rule groupOf_step)
      with dis e show False by blast
    qed
    then show "emptyAt B e = emptyAt P e"
      using B [of "fst e" "snd e"] by (simp add: emptyAt_def)
  qed
qed

lemma captureNeighbor_inv:
  assumes wf: "wf_board P" and inv: "capInv P (capturedSet P opp N) acc"
  shows "capInv P (capturedSet P opp (insert n N)) (captureNeighbor opp acc n)"
proof -
  let ?K = "capturedSet P opp N"
  let ?B = "fst acc"
  let ?G = "groupOf P opp n"
  from inv have wfB: "wf_board ?B"
    and B: "\<And>x y. cellAt ?B x y = (if (x, y) \<in> ?K then Some None else cellAt P x y)"
    and cnt: "snd acc = card ?K"
    by (auto simp: capInv_def)
  show ?thesis
  proof (cases "stoneAt ?B opp n")
    case True
    note u = untouched_group [OF wf B refl True]
    let ?r = "getGroupAndLiberties ?B (fst n) (snd n)"
    have sB: "stoneAt ?B opp (fst n, snd n)" using True by simp
    have g: "set (fst ?r) = ?G" and d: "distinct (fst ?r)"
      and l: "snd ?r = card (libertiesOf P ?G)"
      using getGroupAndLiberties_stone [OF sB] u(3,4) by simp_all
    have l0: "snd ?r = 0 \<longleftrightarrow> libertiesOf P ?G = {}"
      by (simp add: l finite_libertiesOf)
    show ?thesis
    proof (cases "libertiesOf P ?G = {}")
      case lib: True
      have res: "captureNeighbor opp acc n = foldl removeStone acc (fst ?r)"
        using True lib l0 by (simp add: captureNeighbor_def stoneAt_def Let_def)
      have Kn: "capturedSet P opp (insert n N) = ?G \<union> ?K"
        using u(1) lib by (simp add: capturedSet_insert)
      note f = foldl_removeStone [of acc "fst ?r"]
      have c1: "wf_board (fst (foldl removeStone acc (fst ?r)))"
        using f wfB by blast
      have c2: "\<forall>x y. cellAt (fst (foldl removeStone acc (fst ?r))) x y =
                  (if (x, y) \<in> ?G \<union> ?K then Some None else cellAt P x y)"
      proof (intro allI)
        fix x y
        have "(x, y) \<in> ?G \<Longrightarrow> cellAt ?B x y \<noteq> None"
        proof -
          assume a: "(x, y) \<in> ?G"
          then have "stoneAt P opp (x, y)" using u(1) groupOf_stone by blast
          moreover have "(x, y) \<notin> ?K" using a u(2) by blast
          ultimately show ?thesis by (simp add: B stoneAt_def)
        qed
        then show "cellAt (fst (foldl removeStone acc (fst ?r))) x y =
                  (if (x, y) \<in> ?G \<union> ?K then Some None else cellAt P x y)"
          using f g by (auto simp: B)
      qed
      have "card (?G \<union> ?K) = card ?G + card ?K"
        using u(2) finite_capturedSet g by (metis List.finite_set card_Un_disjoint)
      moreover have "card ?G = length (fst ?r)"
        using g d distinct_card by fastforce
      ultimately have c3: "snd (foldl removeStone acc (fst ?r)) = card (?G \<union> ?K)"
        using f cnt by simp
      show ?thesis
        unfolding res Kn capInv_def using c1 c2 c3 by blast
    next
      case lib: False
      have res: "captureNeighbor opp acc n = acc"
        using True lib l0 by (simp add: captureNeighbor_def stoneAt_def Let_def)
      have Kn: "capturedSet P opp (insert n N) = ?K"
        using lib by (simp add: capturedSet_insert)
      show ?thesis unfolding res Kn by (rule inv)
    qed
  next
    case False
    have res: "captureNeighbor opp acc n = acc"
      using False by (simp add: captureNeighbor_def stoneAt_def)
    have Kn: "capturedSet P opp (insert n N) = ?K"
    proof (cases "stoneAt P opp n \<and> libertiesOf P ?G = {}")
      case True
      then have "n \<in> ?K"
        using False B [of "fst n" "snd n"] by (auto simp: stoneAt_def split: if_splits)
      then have "?G \<subseteq> ?K" using capturedSet_group(1) [OF wf] by blast
      with True show ?thesis by (auto simp: capturedSet_insert)
    next
      case False
      then show ?thesis by (auto simp: capturedSet_insert)
    qed
    show ?thesis unfolding res Kn by (rule inv)
  qed
qed

lemma foldl_captureNeighbor_inv:
  "wf_board P \<Longrightarrow> capInv P (capturedSet P opp N) acc \<Longrightarrow>
     capInv P (capturedSet P opp (N \<union> set ns)) (foldl (captureNeighbor opp) acc ns)"
proof (induction ns arbitrary: acc N)
  case Nil
  then show ?case by simp
next
  case (Cons n ns)
  have "capInv P (capturedSet P opp (insert n N)) (captureNeighbor opp acc n)"
    using Cons.prems by (rule captureNeighbor_inv)
  from Cons.IH [OF Cons.prems(1) this] show ?case by simp
qed

lemma capturePass_inv:
  assumes "wf_board board"
  shows "capInv (placed board x y player) (captured board x y player)
           (capturePass board x y player)"
proof -
  let ?P = "placed board x y player"
  have wf: "wf_board ?P"
    using assms by (simp add: placed_def copyBoard_id wf_board_setCell)
  have "capturedSet ?P (opponentOf player) {} = {}"
    by (simp add: capturedSet_def)
  then have "capInv ?P (capturedSet ?P (opponentOf player) {}) (?P, 0)"
    using wf by (simp add: capInv_def)
  from foldl_captureNeighbor_inv [OF wf this, of "getNeighbors x y"]
  show ?thesis by (simp add: capturePass_def captured_def placed_def)
qed

section \<open>The neighbours of the code and the adjacency of the specification\<close>

lemma adjacent_orth:
  "isOnBoard (fst p) (snd p) \<Longrightarrow>
     adjacent p q \<longleftrightarrow> isOnBoard (fst q) (snd q) \<and> orthAdjacent p q"
  by (cases p; cases q)
     (auto simp: adjacent_def getNeighbors_def isOnBoard_def orthAdjacent_def BOARD_SIZE_def)

lemma getNeighbors_length:
  "isOnBoard x y \<Longrightarrow>
     length (getNeighbors x y) =
       (if onEdge x \<and> onEdge y then 2 else if onEdge x \<or> onEdge y then 3 else 4)"
  by (auto simp: getNeighbors_def isOnBoard_def onEdge_def BOARD_SIZE_def)

lemma getNeighbors_distinct: "distinct (getNeighbors x y)"
  by (auto simp: getNeighbors_def)

lemma emptyAt_onBoard: "wf_board board \<Longrightarrow> emptyAt board p \<Longrightarrow> isOnBoard (fst p) (snd p)"
  by (simp add: emptyAt_def cellAt_wf split: if_splits)

lemma link_spec:
  assumes "wf_board board"
  shows "link board color
           = {(p, q). stoneAt board color p \<and> stoneAt board color q \<and> orthAdjacent p q}"
  using assms stoneAt_onBoard [OF assms] adjacent_orth
  by (auto simp: link_def)

lemma groupOf_spec: "wf_board board \<Longrightarrow> groupOf board color s = specGroup board color s"
  by (simp add: groupOf_def specGroup_def link_spec)

lemma libertiesOf_spec:
  assumes "wf_board board" "stoneAt board color s"
  shows "libertiesOf board (groupOf board color s)
           = specLiberties board (groupOf board color s)"
proof -
  have "\<And>p. p \<in> groupOf board color s \<Longrightarrow> isOnBoard (fst p) (snd p)"
    using assms groupOf_stone stoneAt_onBoard by blast
  then show ?thesis
    using emptyAt_onBoard [OF assms(1)] adjacent_orth
    by (auto simp: libertiesOf_def specLiberties_def)
qed

lemma wf_emptyBoard: "wf_board emptyBoard"
  by (simp add: wf_board_def emptyBoard_def BOARD_SIZE_def list_all_length)

lemma cellAt_emptyBoard: "cellAt emptyBoard x y = (if isOnBoard x y then Some None else None)"
  by (auto simp: cellAt_def emptyBoard_def isOnBoard_def BOARD_SIZE_def)

lemma lone_stone:
  assumes on: "isOnBoard x y"
  shows "snd (getGroupAndLiberties (setCell emptyBoard x y (Some color)) x y)
           = length (getNeighbors x y)"
proof -
  let ?b = "setCell emptyBoard x y (Some color)"
  have c: "\<And>x' y'. cellAt ?b x' y' =
      (if x' = x \<and> y' = y then Some (Some color)
       else if isOnBoard x' y' then Some None else None)"
    using on by (simp add: cellAt_setCell cellAt_emptyBoard)
  have st: "\<And>p. stoneAt ?b color p \<longleftrightarrow> p = (x, y)"
    by (auto simp: stoneAt_def c)
  have "(x, y) \<notin> set (getNeighbors x y)"
    by (auto simp: getNeighbors_def)
  then have "link ?b color = {}"
    by (auto simp: link_def st adjacent_def)
  then have g: "groupOf ?b color (x, y) = {(x, y)}"
    by (simp add: groupOf_def)
  have "\<And>e. e \<in> set (getNeighbors x y) \<Longrightarrow> emptyAt ?b e"
  proof -
    fix e assume e: "e \<in> set (getNeighbors x y)"
    then have "adjacent (x, y) e" by (simp add: adjacent_def)
    then have "isOnBoard (fst e) (snd e)" using on adjacent_sym by fastforce
    moreover have "e \<noteq> (x, y)" using e \<open>(x, y) \<notin> set (getNeighbors x y)\<close> by auto
    ultimately show "emptyAt ?b e" by (cases e) (auto simp: emptyAt_def c)
  qed
  then have "libertiesOf ?b {(x, y)} = set (getNeighbors x y)"
    by (auto simp: libertiesOf_def adjacent_def)
  moreover have "stoneAt ?b color (x, y)" by (simp add: st)
  ultimately show ?thesis
    using getGroupAndLiberties_stone(3) [of ?b color x y] g
    by (simp add: distinct_card getNeighbors_distinct)
qed

section \<open>The board after the capture pass\<close>

lemma cellAt_placed:
  "cellAt (placed board x y player) x' y' =
     (if x' = x \<and> y' = y \<and> cellAt board x y \<noteq> None then Some (Some player)
      else cellAt board x' y')"
  by (simp add: placed_def copyBoard_id cellAt_setCell)

lemma wf_placed: "wf_board board \<Longrightarrow> wf_board (placed board x y player)"
  by (simp add: placed_def copyBoard_id wf_board_setCell)

lemma deadStones_captured: "deadStones board x y player = captured board x y player"
proof -
  let ?P = "placed board x y player"
  let ?opp = "opponentOf player"
  have r: "\<And>n. stoneAt ?P ?opp n \<Longrightarrow>
      set (fst (getGroupAndLiberties ?P (fst n) (snd n))) = groupOf ?P ?opp n
      \<and> (snd (getGroupAndLiberties ?P (fst n) (snd n)) = 0
           \<longleftrightarrow> libertiesOf ?P (groupOf ?P ?opp n) = {})"
  proof -
    fix n assume "stoneAt ?P ?opp n"
    then have s: "stoneAt ?P ?opp (fst n, snd n)" by simp
    from getGroupAndLiberties_stone(1,3) [OF s] show
      "set (fst (getGroupAndLiberties ?P (fst n) (snd n))) = groupOf ?P ?opp n
      \<and> (snd (getGroupAndLiberties ?P (fst n) (snd n)) = 0
           \<longleftrightarrow> libertiesOf ?P (groupOf ?P ?opp n) = {})"
      by (simp add: finite_libertiesOf)
  qed
  show ?thesis
  proof (intro equalityI subsetI)
    fix q assume "q \<in> deadStones board x y player"
    then obtain n where n: "n \<in> set (getNeighbors x y)" "stoneAt ?P ?opp n"
      "snd (getGroupAndLiberties ?P (fst n) (snd n)) = 0"
      "q \<in> set (fst (getGroupAndLiberties ?P (fst n) (snd n)))"
      by (auto simp: deadStones_def deadNeighbors_def stoneAt_def)
    with r [OF n(2)] show "q \<in> captured board x y player"
      by (auto simp: captured_def capturedSet_def)
  next
    fix q assume "q \<in> captured board x y player"
    then obtain n where n: "n \<in> set (getNeighbors x y)" "stoneAt ?P ?opp n"
      "libertiesOf ?P (groupOf ?P ?opp n) = {}" "q \<in> groupOf ?P ?opp n"
      by (auto simp: captured_def capturedSet_def)
    with r [OF n(2)] have "n \<in> deadNeighbors board x y player"
      "q \<in> set (fst (getGroupAndLiberties ?P (fst n) (snd n)))"
      by (auto simp: deadNeighbors_def stoneAt_def)
    then show "q \<in> deadStones board x y player"
      by (auto simp: deadStones_def)
  qed
qed

lemma capturePass_any_order:
  assumes "wf_board board"
  shows "capInv (placed board x y player)
           (capturedSet (placed board x y player) (opponentOf player) (set ns))
           (foldl (captureNeighbor (opponentOf player)) (placed board x y player, 0) ns)"
proof -
  let ?P = "placed board x y player"
  have wf: "wf_board ?P" using assms by (rule wf_placed)
  have "capturedSet ?P (opponentOf player) {} = {}"
    by (simp add: capturedSet_def)
  then have "capInv ?P (capturedSet ?P (opponentOf player) {}) (?P, 0)"
    using wf by (simp add: capInv_def)
  from foldl_captureNeighbor_inv [OF wf this, of ns]
  show ?thesis by simp
qed

lemma capInv_unique:
  assumes "capInv P K a" "capInv P K b"
  shows "a = b"
proof -
  have "fst a = fst b"
    using assms by (intro board_eqI) (auto simp: capInv_def)
  moreover have "snd a = snd b" using assms by (simp add: capInv_def)
  ultimately show ?thesis by (simp add: prod_eq_iff)
qed

section \<open>The store: the working copy is new, and nothing else is written\<close>

lemma extends_refl: "extends s s"
  by (simp add: extends_def)

lemma extends_trans: "extends a b \<Longrightarrow> extends b c \<Longrightarrow> extends a c"
  by (auto simp: extends_def)

lemma extends_readBoard:
  "extends s s' \<Longrightarrow> validBoard s b \<Longrightarrow> readBoard s' b = readBoard s b"
  by (auto simp: extends_def validBoard_def readBoard_def list_all_iff)

lemma copyBoardS_props:
  assumes "validBoard s b"
  shows "readBoard (snd (copyBoardS s b)) (fst (copyBoardS s b)) = readBoard s b"
    and "freshBoard (length s) (snd (copyBoardS s b)) (fst (copyBoardS s b))"
    and "extends s (snd (copyBoardS s b))"
proof -
  let ?s1 = "s @ map (\<lambda>r. s ! r) b"
  let ?nb = "[length s ..< length s + length b]"
  have "readBoard ?s1 ?nb = map (\<lambda>r. s ! r) b"
    by (rule nth_equalityI) (auto simp: readBoard_def nth_append)
  then show "readBoard (snd (copyBoardS s b)) (fst (copyBoardS s b)) = readBoard s b"
    by (simp add: copyBoardS_def readBoard_def)
  show "freshBoard (length s) (snd (copyBoardS s b)) (fst (copyBoardS s b))"
    by (auto simp: copyBoardS_def freshBoard_def)
  show "extends s (snd (copyBoardS s b))"
    by (auto simp: copyBoardS_def extends_def nth_append)
qed

lemma writeCell_props:
  assumes f: "freshBoard k s nb"
  shows "readBoard (writeCell s nb x y v) nb = setCell (readBoard s nb) x y v"
    and "freshBoard k (writeCell s nb x y v) nb"
    and "\<forall>a<k. writeCell s nb x y v ! a = s ! a"
    and "length (writeCell s nb x y v) = length s"
proof -
  from f have d: "distinct nb" and r: "\<forall>r\<in>set nb. k \<le> r \<and> r < length s"
    by (auto simp: freshBoard_def)
  show len: "length (writeCell s nb x y v) = length s"
    by (simp add: writeCell_def)
  show "freshBoard k (writeCell s nb x y v) nb"
    using f by (simp add: freshBoard_def len)
  show "\<forall>a<k. writeCell s nb x y v ! a = s ! a"
  proof (intro allI impI)
    fix a assume a: "a < k"
    show "writeCell s nb x y v ! a = s ! a"
    proof (cases "0 \<le> y \<and> y < int (length nb)")
      case True
      then have "nb ! nat y \<in> set nb" by (simp add: nat_less_iff)
      then have "nb ! nat y \<noteq> a" using r a by auto
      then show ?thesis by (simp add: writeCell_def)
    next
      case False
      then show ?thesis by (auto simp: writeCell_def)
    qed
  qed
  show "readBoard (writeCell s nb x y v) nb = setCell (readBoard s nb) x y v"
  proof (cases "0 \<le> y \<and> y < int (length nb) \<and> 0 \<le> x \<and> x < int (length (s ! (nb ! nat y)))")
    case False
    then show ?thesis
      by (auto simp: writeCell_def setCell_def readBoard_def nat_less_iff)
  next
    case True
    then have ny: "nat y < length nb" by (simp add: nat_less_iff)
    let ?a = "nb ! nat y"
    let ?row = "(s ! ?a)[nat x := v]"
    have w: "writeCell s nb x y v = s[?a := ?row]"
      using True by (simp add: writeCell_def)
    have sc: "setCell (readBoard s nb) x y v = (readBoard s nb)[nat y := ?row]"
      using True ny by (simp add: setCell_def readBoard_def)
    have al: "?a < length s" using r ny by simp
    show ?thesis
      unfolding w sc
    proof (rule nth_equalityI)
      show "length (readBoard (s[?a := ?row]) nb) = length ((readBoard s nb)[nat y := ?row])"
        by (simp add: readBoard_def)
      fix i assume "i < length (readBoard (s[?a := ?row]) nb)"
      then have i: "i < length nb" by (simp add: readBoard_def)
      have "nb ! i = ?a \<longleftrightarrow> i = nat y"
        using d i ny by (simp add: nth_eq_iff_index_eq)
      then show "readBoard (s[?a := ?row]) nb ! i = (readBoard s nb)[nat y := ?row] ! i"
        using i al by (auto simp: readBoard_def nth_list_update)
    qed
  qed
qed

lemma foldl_removeStoneS:
  "freshBoard k (fst acc) nb \<Longrightarrow>
     readBoard (fst (foldl (removeStoneS nb) acc grp)) nb
        = fst (foldl removeStone (readBoard (fst acc) nb, snd acc) grp)
     \<and> snd (foldl (removeStoneS nb) acc grp)
        = snd (foldl removeStone (readBoard (fst acc) nb, snd acc) grp)
     \<and> freshBoard k (fst (foldl (removeStoneS nb) acc grp)) nb
     \<and> (\<forall>a<k. fst (foldl (removeStoneS nb) acc grp) ! a = fst acc ! a)
     \<and> length (fst (foldl (removeStoneS nb) acc grp)) = length (fst acc)"
proof (induction grp arbitrary: acc)
  case Nil
  then show ?case by simp
next
  case (Cons stone grp)
  let ?acc' = "removeStoneS nb acc stone"
  note w = writeCell_props [OF Cons.prems, of "fst stone" "snd stone" None]
  have f': "freshBoard k (fst ?acc') nb"
    using w(2) by (simp add: removeStoneS_def)
  have a: "(readBoard (fst ?acc') nb, snd ?acc') = removeStone (readBoard (fst acc) nb, snd acc) stone"
    using w(1) by (simp add: removeStoneS_def removeStone_def)
  have fr: "\<forall>a<k. fst ?acc' ! a = fst acc ! a" "length (fst ?acc') = length (fst acc)"
    using w(3,4) by (simp_all add: removeStoneS_def)
  from Cons.IH [OF f'] show ?case
    using a fr by simp
qed

lemma captureNeighborS_props:
  assumes "freshBoard k (fst acc) nb"
  shows "readBoard (fst (captureNeighborS opp nb acc n)) nb
           = fst (captureNeighbor opp (readBoard (fst acc) nb, snd acc) n)"
    and "snd (captureNeighborS opp nb acc n)
           = snd (captureNeighbor opp (readBoard (fst acc) nb, snd acc) n)"
    and "freshBoard k (fst (captureNeighborS opp nb acc n)) nb"
    and "\<forall>a<k. fst (captureNeighborS opp nb acc n) ! a = fst acc ! a"
    and "length (fst (captureNeighborS opp nb acc n)) = length (fst acc)"
  using assms foldl_removeStoneS [OF assms]
  by (auto simp: captureNeighborS_def captureNeighbor_def Let_def)

lemma foldl_captureNeighborS:
  "freshBoard k (fst acc) nb \<Longrightarrow>
     readBoard (fst (foldl (captureNeighborS opp nb) acc ns)) nb
        = fst (foldl (captureNeighbor opp) (readBoard (fst acc) nb, snd acc) ns)
     \<and> snd (foldl (captureNeighborS opp nb) acc ns)
        = snd (foldl (captureNeighbor opp) (readBoard (fst acc) nb, snd acc) ns)
     \<and> freshBoard k (fst (foldl (captureNeighborS opp nb) acc ns)) nb
     \<and> (\<forall>a<k. fst (foldl (captureNeighborS opp nb) acc ns) ! a = fst acc ! a)
     \<and> length (fst (foldl (captureNeighborS opp nb) acc ns)) = length (fst acc)"
proof (induction ns arbitrary: acc)
  case Nil
  then show ?case by simp
next
  case (Cons n ns)
  let ?acc' = "captureNeighborS opp nb acc n"
  note c = captureNeighborS_props [OF Cons.prems, of opp n]
  have a: "(readBoard (fst ?acc') nb, snd ?acc')
             = captureNeighbor opp (readBoard (fst acc) nb, snd acc) n"
    using c(1,2) by (simp add: prod_eq_iff)
  from Cons.IH [OF c(3)] show ?case
    using a c(4,5) by simp
qed

section \<open>The move function on the store computes the move function on values\<close>

lemma tryMakeMove_unfold:
  "tryMakeMove board x y player history =
     (if \<not> isOnBoard x y then failure OutOfBounds
      else if cellAt board x y \<noteq> Some None then failure Occupied
      else if snd (getGroupAndLiberties (fst (capturePass board x y player)) x y) = 0
        then failure Suicide
      else if length history > 1
           \<and> history ! (length history - 2) = stringify (fst (capturePass board x y player))
        then failure KoViolation
      else \<lparr>success = True, newBoard = Some (fst (capturePass board x y player)),
             capturedCount = Some (snd (capturePass board x y player)), error = None\<rparr>)"
  by (simp add: tryMakeMove_def Let_def)

lemma tryMakeMoveS_pass:
  fixes s :: store and b :: BoardRef and x y :: int and player :: PlayerColor
  assumes v: "validBoard s b"
  defines "nb \<equiv> fst (copyBoardS s b)"
  defines "r \<equiv> foldl (captureNeighborS (opponentOf player) nb)
                  (writeCell (snd (copyBoardS s b)) nb x y (Some player), 0) (getNeighbors x y)"
  shows "readBoard (fst r) nb = fst (capturePass (readBoard s b) x y player)"
    and "snd r = snd (capturePass (readBoard s b) x y player)"
    and "freshBoard (length s) (fst r) nb"
    and "extends s (fst r)"
proof -
  let ?s1 = "snd (copyBoardS s b)"
  let ?s2 = "writeCell ?s1 nb x y (Some player)"
  note c = copyBoardS_props [OF v]
  have f1: "freshBoard (length s) ?s1 nb" using c(2) by (simp add: nb_def)
  note w = writeCell_props [OF f1, of x y "Some player"]
  have f2: "freshBoard (length s) (fst (?s2, 0::nat)) nb" using w(2) by simp
  note p = foldl_captureNeighborS [OF f2, of "opponentOf player" "getNeighbors x y"]
  have rb: "readBoard ?s2 nb = setCell (copyBoard (readBoard s b)) x y (Some player)"
    using w(1) c(1) by (simp add: nb_def copyBoard_id)
  show "readBoard (fst r) nb = fst (capturePass (readBoard s b) x y player)"
    using p rb by (simp add: r_def capturePass_def)
  show "snd r = snd (capturePass (readBoard s b) x y player)"
    using p rb by (simp add: r_def capturePass_def)
  show "freshBoard (length s) (fst r) nb"
    using p by (simp add: r_def)
  have "length s \<le> length (fst r)"
    using p w(4) c(3) by (simp add: r_def extends_def)
  moreover have "\<forall>a<length s. fst r ! a = s ! a"
    using p w(3) c(3) by (simp add: r_def extends_def)
  ultimately show "extends s (fst r)" by (simp add: extends_def)
qed

lemma tryMakeMoveS_refines:
  assumes v: "validBoard s b"
  shows "readResult (snd (tryMakeMoveS s b x y player history))
           (fst (tryMakeMoveS s b x y player history))
         = tryMakeMove (readBoard s b) x y player history"
    and "extends s (snd (tryMakeMoveS s b x y player history))"
    and "\<forall>nb. newBoard (fst (tryMakeMoveS s b x y player history)) = Some nb \<longrightarrow>
           freshBoard (length s) (snd (tryMakeMoveS s b x y player history)) nb"
proof -
  note p = tryMakeMoveS_pass [OF v, where x = x and y = y and player = player]
  show "readResult (snd (tryMakeMoveS s b x y player history))
           (fst (tryMakeMoveS s b x y player history))
         = tryMakeMove (readBoard s b) x y player history"
    using p(1,2)
    by (simp add: tryMakeMoveS_def tryMakeMove_unfold Let_def readResult_def failure_def)
  show "extends s (snd (tryMakeMoveS s b x y player history))"
    using p(4) by (simp add: tryMakeMoveS_def Let_def extends_refl)
  show "\<forall>nb. newBoard (fst (tryMakeMoveS s b x y player history)) = Some nb \<longrightarrow>
           freshBoard (length s) (snd (tryMakeMoveS s b x y player history)) nb"
    using p(3) by (simp add: tryMakeMoveS_def Let_def failure_def)
qed

section \<open>The cells of the board after the capture pass\<close>

lemma opponentOf_neq: "opponentOf player \<noteq> player"
  by (cases player) (simp_all add: opponentOf_def)

lemma capturePass_board:
  assumes wf: "wf_board board" and e: "cellAt board x y = Some None"
  shows "wf_board (fst (capturePass board x y player))"
    and "\<forall>x' y'. cellAt (fst (capturePass board x y player)) x' y' =
           (if (x', y') = (x, y) then Some (Some player)
            else if (x', y') \<in> deadStones board x y player then Some None
            else cellAt board x' y')"
    and "(x, y) \<notin> deadStones board x y player"
    and "\<forall>q\<in>deadStones board x y player.
           cellAt board (fst q) (snd q) = Some (Some (opponentOf player))"
    and "snd (capturePass board x y player) = card (deadStones board x y player)"
proof -
  let ?P = "placed board x y player"
  let ?K = "deadStones board x y player"
  note inv = capturePass_inv [OF wf, of x y player]
  have P: "\<And>x' y'. cellAt ?P x' y' =
      (if (x', y') = (x, y) then Some (Some player) else cellAt board x' y')"
    using e by (simp add: cellAt_placed)
  have K: "\<And>q. q \<in> ?K \<Longrightarrow> stoneAt ?P (opponentOf player) q"
    using capturedSet_stone by (simp add: deadStones_captured captured_def)
  show nK: "(x, y) \<notin> ?K"
    using K [of "(x, y)"] opponentOf_neq [of player] by (auto simp: stoneAt_def P)
  show "wf_board (fst (capturePass board x y player))"
    using inv by (simp add: capInv_def)
  show "\<forall>x' y'. cellAt (fst (capturePass board x y player)) x' y' =
           (if (x', y') = (x, y) then Some (Some player)
            else if (x', y') \<in> ?K then Some None
            else cellAt board x' y')"
    using inv nK by (auto simp: capInv_def deadStones_captured P)
  show "\<forall>q\<in>?K. cellAt board (fst q) (snd q) = Some (Some (opponentOf player))"
  proof
    fix q assume q: "q \<in> ?K"
    then have "q \<noteq> (x, y)" using nK by auto
    then show "cellAt board (fst q) (snd q) = Some (Some (opponentOf player))"
      using K [OF q] P [of "fst q" "snd q"] by (auto simp: stoneAt_def prod_eq_iff)
  qed
  show "snd (capturePass board x y player) = card ?K"
    using inv by (simp add: capInv_def deadStones_captured)
qed

lemma resolver_spec:
  assumes "wf_board board" "cellAt board x y = Some (Some color)"
  shows "snd (getGroupAndLiberties board x y)
           = card (specLiberties board (specGroup board color (x, y)))"
    and "finite (specLiberties board (specGroup board color (x, y)))"
    and "specLiberties board (specGroup board color (x, y))
           = libertiesOf board (groupOf board color (x, y))"
proof -
  have st: "stoneAt board color (x, y)" using assms(2) by (simp add: stoneAt_def)
  show eq: "specLiberties board (specGroup board color (x, y))
           = libertiesOf board (groupOf board color (x, y))"
    using libertiesOf_spec [OF assms(1) st] groupOf_spec [OF assms(1)] by simp
  show "snd (getGroupAndLiberties board x y)
           = card (specLiberties board (specGroup board color (x, y)))"
    using getGroupAndLiberties_stone(3) [OF st] eq by simp
  show "finite (specLiberties board (specGroup board color (x, y)))"
    by (simp add: eq finite_libertiesOf)
qed




section \<open>Facts about the example positions\<close>



section \<open>The fingerprint determines the board\<close>

lemma joinComma_Cons:
  "joinComma (s # ss) = s @ (if ss = [] then [] else CHR '','' # joinComma ss)"
  by (cases ss) simp_all

lemma cellJSON_inj:
  "cellJSON c @ u = cellJSON c' @ u' \<Longrightarrow> c = c' \<and> u = u'"
  by (cases c; cases c') (auto simp: cellJSON_def split: PlayerColor.splits)

lemma cellJSON_not_Nil: "cellJSON c \<noteq> []"
  by (auto simp: cellJSON_def split: option.splits PlayerColor.splits)

lemma cellJSON_no_bracket: "CHR '']'' \<notin> set (cellJSON c)"
  by (auto simp: cellJSON_def split: option.splits PlayerColor.splits)

lemma joinComma_cells_inj:
  "joinComma (map cellJSON cs) = joinComma (map cellJSON cs') \<Longrightarrow> cs = cs'"
proof (induction cs arbitrary: cs')
  case Nil
  then show ?case
    by (cases cs') (auto simp: joinComma_Cons cellJSON_not_Nil)
next
  case (Cons c t)
  show ?case
  proof (cases cs')
    case Nil
    with Cons.prems show ?thesis by (auto simp: joinComma_Cons cellJSON_not_Nil)
  next
    case (Cons c' t')
    let ?X = "if map cellJSON t = [] then [] else CHR '','' # joinComma (map cellJSON t)"
    let ?X' = "if map cellJSON t' = [] then [] else CHR '','' # joinComma (map cellJSON t')"
    have "cellJSON c @ ?X = cellJSON c' @ ?X'"
      using Cons.prems Cons by (simp add: joinComma_Cons)
    then have c: "c = c'" and X: "?X = ?X'" using cellJSON_inj by blast+
    have "joinComma (map cellJSON t) = joinComma (map cellJSON t')"
      using X by (auto split: if_splits)
    then have "t = t'" by (rule Cons.IH)
    with c Cons show ?thesis by simp
  qed
qed

lemma joinComma_cells_no_bracket: "CHR '']'' \<notin> set (joinComma (map cellJSON cs))"
  by (induction cs) (auto simp: joinComma_Cons cellJSON_no_bracket)

lemma split_at_bracket:
  "CHR '']'' \<notin> set u \<Longrightarrow> CHR '']'' \<notin> set u' \<Longrightarrow>
     u @ CHR '']'' # v = u' @ CHR '']'' # v' \<Longrightarrow> u = u' \<and> v = v'"
proof (induction u arbitrary: u')
  case Nil
  then show ?case by (cases u') auto
next
  case (Cons a u)
  then show ?case by (cases u') auto
qed

lemma rowJSON_inj:
  assumes "arrayJSON (map cellJSON r) @ u = arrayJSON (map cellJSON r') @ u'"
  shows "r = r' \<and> u = u'"
proof -
  have "joinComma (map cellJSON r) @ CHR '']'' # u = joinComma (map cellJSON r') @ CHR '']'' # u'"
    using assms by (simp add: arrayJSON_def)
  then have "joinComma (map cellJSON r) = joinComma (map cellJSON r') \<and> u = u'"
    by (rule split_at_bracket [OF joinComma_cells_no_bracket joinComma_cells_no_bracket])
  then show ?thesis using joinComma_cells_inj by blast
qed

lemma joinComma_rows_inj:
  "joinComma (map (\<lambda>row. arrayJSON (map cellJSON row)) b)
     = joinComma (map (\<lambda>row. arrayJSON (map cellJSON row)) b') \<Longrightarrow> b = b'"
proof (induction b arbitrary: b')
  case Nil
  then show ?case
    by (cases b') (auto simp: joinComma_Cons arrayJSON_def)
next
  case (Cons r t)
  show ?case
  proof (cases b')
    case Nil
    with Cons.prems show ?thesis by (auto simp: joinComma_Cons arrayJSON_def)
  next
    case (Cons r' t')
    let ?f = "\<lambda>row. arrayJSON (map cellJSON row)"
    let ?X = "if map ?f t = [] then [] else CHR '','' # joinComma (map ?f t)"
    let ?X' = "if map ?f t' = [] then [] else CHR '','' # joinComma (map ?f t')"
    have "?f r @ ?X = ?f r' @ ?X'"
      using Cons.prems Cons by (simp add: joinComma_Cons)
    then have r: "r = r'" and X: "?X = ?X'" using rowJSON_inj by blast+
    have "joinComma (map ?f t) = joinComma (map ?f t')"
      using X by (auto split: if_splits)
    then have "t = t'" by (rule Cons.IH)
    with r Cons show ?thesis by simp
  qed
qed

lemma stringify_inj: "stringify b = stringify b' \<Longrightarrow> b = b'"
  using joinComma_rows_inj by (auto simp: stringify_def arrayJSON_def)

section \<open>Groups without liberties\<close>

lemma set_allCoords: "set allCoords = {p. isOnBoard (fst p) (snd p)}"
  by (auto simp: allCoords_def isOnBoard_def)

lemma noDeadGroup_iff:
  assumes wf: "wf_board board"
  shows "noDeadGroup board \<longleftrightarrow>
           (\<forall>c p. stoneAt board c p \<longrightarrow> libertiesOf board (groupOf board c p) \<noteq> {})"
proof
  assume n: "noDeadGroup board"
  show "\<forall>c p. stoneAt board c p \<longrightarrow> libertiesOf board (groupOf board c p) \<noteq> {}"
  proof (intro allI impI)
    fix c p assume st: "stoneAt board c p"
    then have "p \<in> set allCoords"
      using stoneAt_onBoard [OF wf] by (simp add: set_allCoords)
    with n have "cellAt board (fst p) (snd p) = Some None
                 \<or> snd (getGroupAndLiberties board (fst p) (snd p)) \<noteq> 0"
      by (simp add: noDeadGroup_def list_all_iff)
    with st have "snd (getGroupAndLiberties board (fst p) (snd p)) \<noteq> 0"
      by (auto simp: stoneAt_def)
    moreover have "stoneAt board c (fst p, snd p)" using st by simp
    ultimately show "libertiesOf board (groupOf board c p) \<noteq> {}"
      using getGroupAndLiberties_stone(3) by fastforce
  qed
next
  assume a: "\<forall>c p. stoneAt board c p \<longrightarrow> libertiesOf board (groupOf board c p) \<noteq> {}"
  show "noDeadGroup board"
    unfolding noDeadGroup_def list_all_iff
  proof
    fix p assume "p \<in> set allCoords"
    then have on: "isOnBoard (fst p) (snd p)" by (simp add: set_allCoords)
    show "cellAt board (fst p) (snd p) = Some None
                 \<or> snd (getGroupAndLiberties board (fst p) (snd p)) \<noteq> 0"
    proof (cases "board ! nat (snd p) ! nat (fst p)")
      case None
      then show ?thesis using on by (simp add: cellAt_wf [OF wf])
    next
      case (Some c)
      then have st: "stoneAt board c (fst p, snd p)"
        using on by (simp add: stoneAt_def cellAt_wf [OF wf])
      then have "stoneAt board c p" by simp
      then have "libertiesOf board (groupOf board c p) \<noteq> {}" using a by blast
      then have "card (libertiesOf board (groupOf board c p)) \<noteq> 0"
        by (simp add: finite_libertiesOf)
      then show ?thesis
        using getGroupAndLiberties_stone(3) [OF st] by simp
    qed
  qed
qed

lemma color_cases: "c = player \<or> c = opponentOf player"
  by (cases c; cases player) (simp_all add: opponentOf_def)

lemma no_dead_group_after_move:
  assumes wf: "wf_board board" and e: "cellAt board x y = Some None"
    and inv: "\<And>c p. stoneAt board c p \<Longrightarrow> libertiesOf board (groupOf board c p) \<noteq> {}"
    and self: "libertiesOf (fst (capturePass board x y player))
                 (groupOf (fst (capturePass board x y player)) player (x, y)) \<noteq> {}"
    and st: "stoneAt (fst (capturePass board x y player)) c p"
  shows "libertiesOf (fst (capturePass board x y player))
           (groupOf (fst (capturePass board x y player)) c p) \<noteq> {}"
proof -
  let ?F = "fst (capturePass board x y player)"
  let ?P = "placed board x y player"
  let ?K = "deadStones board x y player"
  let ?opp = "opponentOf player"
  note cb = capturePass_board [OF wf e, of player]
  have F: "\<And>q. cellAt ?F (fst q) (snd q) =
      (if q = (x, y) then Some (Some player) else if q \<in> ?K then Some None
       else cellAt board (fst q) (snd q))"
    using cb(2) by (auto simp: prod_eq_iff)
  have P: "\<And>q. cellAt ?P (fst q) (snd q) =
      (if q = (x, y) then Some (Some player) else cellAt board (fst q) (snd q))"
    using e by (auto simp: cellAt_placed prod_eq_iff)
  have Kopp: "\<And>q. q \<in> ?K \<Longrightarrow> stoneAt board ?opp q"
    using cb(4) by (simp add: stoneAt_def)
  have neq: "?opp \<noteq> player" by (rule opponentOf_neq)
  have emptyF: "\<And>q. emptyAt board q \<Longrightarrow> q \<noteq> (x, y) \<Longrightarrow> emptyAt ?F q"
    by (simp add: emptyAt_def F)
  show ?thesis
  proof (cases "c = player")
    case True
    have stF: "\<And>q. stoneAt board player q \<Longrightarrow> stoneAt ?F player q"
      using Kopp neq by (auto simp: stoneAt_def F)
    show ?thesis
    proof (cases "(x, y) \<in> groupOf ?F player p")
      case in_group: True
      then have "groupOf ?F player (x, y) = groupOf ?F player p"
        using cb(1) by (rule groupOf_eq [rotated])
      with self True show ?thesis by simp
    next
      case False
      then have pne: "p \<noteq> (x, y)" using groupOf_self by metis
      then have pI: "stoneAt board player p"
        using st True neq by (auto simp: stoneAt_def F split: if_splits)
      from inv [OF pI] obtain l g where l: "emptyAt board l"
        and g: "g \<in> groupOf board player p" and a: "adjacent g l"
        by (auto simp: libertiesOf_def)
      have gF: "g \<in> groupOf ?F player p"
        using g groupOf_mono [of board player ?F p] stF by blast
      have "l \<noteq> (x, y)"
      proof
        assume lx: "l = (x, y)"
        have "stoneAt ?F player g" using st True gF groupOf_stone by blast
        moreover have "stoneAt ?F player (x, y)" using F [of "(x, y)"] by (simp add: stoneAt_def)
        ultimately have "(g, (x, y)) \<in> link ?F player"
          using a lx by (simp add: link_def)
        with gF have "(x, y) \<in> groupOf ?F player p" by (rule groupOf_step)
        with False show False by simp
      qed
      then have "emptyAt ?F l" using l emptyF by simp
      then have "l \<in> libertiesOf ?F (groupOf ?F player p)"
        using gF a by (auto simp: libertiesOf_def)
      then show ?thesis using True by auto
    qed
  next
    case False
    then have c: "c = ?opp" using color_cases [of c player] by simp
    have wfP: "wf_board ?P" using wf by (rule wf_placed)
    have FP: "\<And>x' y'. cellAt ?F x' y' =
        (if (x', y') \<in> captured board x y player then Some None else cellAt ?P x' y')"
      using capturePass_inv [OF wf, of x y player] by (simp add: capInv_def)
    have stF: "stoneAt ?F ?opp p" using st c by simp
    note u = untouched_group [OF wfP FP _ stF, unfolded captured_def, OF refl]
    have same: "\<And>q. stoneAt ?P ?opp q \<longleftrightarrow> stoneAt board ?opp q"
      using neq e by (auto simp: stoneAt_def P)
    then have "link ?P ?opp = link board ?opp" by (simp add: link_def)
    then have G: "groupOf ?P ?opp p = groupOf board ?opp p" by (simp add: groupOf_def)
    have libP: "libertiesOf ?P (groupOf ?P ?opp p) \<noteq> {}"
    proof
      assume dead: "libertiesOf ?P (groupOf ?P ?opp p) = {}"
      have pI: "stoneAt board ?opp p" using u(1) same by simp
      from inv [OF pI] obtain l g where l: "emptyAt board l"
        and g: "g \<in> groupOf board ?opp p" and a: "adjacent g l"
        by (auto simp: libertiesOf_def)
      have gP: "g \<in> groupOf ?P ?opp p" using g G by simp
      have "l = (x, y)"
      proof (rule ccontr)
        assume "l \<noteq> (x, y)"
        then have "emptyAt ?P l" using l by (simp add: emptyAt_def P)
        then have "l \<in> libertiesOf ?P (groupOf ?P ?opp p)"
          using gP a by (auto simp: libertiesOf_def)
        with dead show False by simp
      qed
      have gst: "stoneAt ?P ?opp g" using u(1) gP groupOf_stone by blast
      then have "isOnBoard (fst g) (snd g)" using wfP stoneAt_onBoard by blast
      then have "adjacent (x, y) g" using a \<open>l = (x, y)\<close> adjacent_sym by blast
      then have gn: "g \<in> set (getNeighbors x y)" by (simp add: adjacent_def)
      have geq: "groupOf ?P ?opp g = groupOf ?P ?opp p"
        using wfP gP by (rule groupOf_eq)
      have "p \<in> groupOf ?P ?opp g" using geq groupOf_self by blast
      then have "p \<in> capturedSet ?P ?opp (set (getNeighbors x y))"
        using gn gst dead geq by (auto simp: capturedSet_def)
      with u(2) groupOf_self show False by blast
    qed
    show ?thesis
      using libP u(3,4) c by simp
  qed
qed

lemma noDeadGroup_spec:
  assumes wf: "wf_board board"
  shows "noDeadGroup board \<longleftrightarrow>
           (\<forall>c p. cellAt board (fst p) (snd p) = Some (Some c) \<longrightarrow>
                  specLiberties board (specGroup board c p) \<noteq> {})"
proof -
  have "\<And>c p. stoneAt board c p \<Longrightarrow>
          specLiberties board (specGroup board c p) = libertiesOf board (groupOf board c p)"
    using libertiesOf_spec [OF wf] groupOf_spec [OF wf] by simp
  then show ?thesis
    unfolding noDeadGroup_iff [OF wf] by (auto simp: stoneAt_def)
qed

section \<open>The captured stones in the words of the specification\<close>

lemma placed_spec:
  assumes "wf_board board" "isOnBoard x y"
  shows "placed board x y player = specPlaced board x y player"
proof -
  have "0 \<le> y" "y < int (length board)" "0 \<le> x"
    using assms by (simp_all add: wf_board_def isOnBoard_def)
  moreover from this have "nat y < length board" by linarith
  then have "x < int (length (board ! nat y))"
    using assms by (simp add: wf_board_def isOnBoard_def list_all_length)
  ultimately show ?thesis
    by (simp add: placed_def copyBoard_id setCell_def specPlaced_def)
qed

lemma deadStones_spec:
  assumes wf: "wf_board board" and on: "isOnBoard x y"
  shows "deadStones board x y player = specCaptured board x y player"
proof -
  let ?P = "placed board x y player"
  let ?opp = "opponentOf player"
  have wfP: "wf_board ?P" using wf by (rule wf_placed)
  have P: "specPlaced board x y player = ?P" using placed_spec [OF wf on] by simp
  have nb: "\<And>n. stoneAt ?P ?opp n \<Longrightarrow>
      (n \<in> set (getNeighbors x y)) = orthAdjacent (x, y) n"
  proof -
    fix n assume "stoneAt ?P ?opp n"
    then have "isOnBoard (fst n) (snd n)" using wfP stoneAt_onBoard by blast
    then show "(n \<in> set (getNeighbors x y)) = orthAdjacent (x, y) n"
      using adjacent_orth [of "(x, y)" n] on by (simp add: adjacent_def)
  qed
  have sp: "\<And>n. stoneAt ?P ?opp n \<Longrightarrow>
      specLiberties ?P (specGroup ?P ?opp n) = libertiesOf ?P (groupOf ?P ?opp n)"
    using libertiesOf_spec [OF wfP] groupOf_spec [OF wfP] by simp
  have col: "\<And>c. c \<noteq> player \<longleftrightarrow> c = ?opp"
    using color_cases [of _ player] opponentOf_neq [of player] by auto
  show ?thesis
  proof (intro equalityI subsetI)
    fix q assume "q \<in> deadStones board x y player"
    then obtain n where n: "n \<in> set (getNeighbors x y)" "stoneAt ?P ?opp n"
      "libertiesOf ?P (groupOf ?P ?opp n) = {}" "q \<in> groupOf ?P ?opp n"
      by (auto simp: deadStones_captured captured_def capturedSet_def)
    have "?opp \<noteq> player" by (rule opponentOf_neq)
    moreover have "orthAdjacent (x, y) n" using nb [OF n(2)] n(1) by simp
    moreover have "specLiberties ?P (specGroup ?P ?opp n) = {}" using sp [OF n(2)] n(3) by simp
    moreover have "q \<in> specGroup ?P ?opp n" using n(4) groupOf_spec [OF wfP] by simp
    ultimately show "q \<in> specCaptured board x y player"
      unfolding specCaptured_def P using n(2) by blast
  next
    fix q assume "q \<in> specCaptured board x y player"
    then obtain c n where c: "c \<noteq> player" and a: "orthAdjacent (x, y) n"
      and st: "stoneAt ?P c n" and l: "specLiberties ?P (specGroup ?P c n) = {}"
      and q: "q \<in> specGroup ?P c n"
      unfolding specCaptured_def P by blast
    have ce: "c = ?opp" using c col by simp
    have "n \<in> set (getNeighbors x y)" using nb [of n] st a ce by simp
    moreover have "libertiesOf ?P (groupOf ?P ?opp n) = {}" using sp [of n] st l ce by simp
    moreover have "q \<in> groupOf ?P ?opp n" using q ce groupOf_spec [OF wfP] by simp
    ultimately show "q \<in> deadStones board x y player"
      using st ce by (auto simp: deadStones_captured captured_def capturedSet_def)
  qed
qed

text \<open>A board on which the new stone is left without a liberty has such a group.\<close>

lemma suicide_board_dead:
  assumes wf: "wf_board board" and on: "isOnBoard x y" and e: "cellAt board x y = Some None"
    and z: "snd (getGroupAndLiberties (fst (capturePass board x y player)) x y) = 0"
  shows "\<not> noDeadGroup (fst (capturePass board x y player))"
proof
  assume n: "noDeadGroup (fst (capturePass board x y player))"
  have "(x, y) \<in> set allCoords" using on by (simp add: set_allCoords)
  with n have "cellAt (fst (capturePass board x y player)) x y = Some None
        \<or> snd (getGroupAndLiberties (fst (capturePass board x y player)) x y) \<noteq> 0"
    by (auto simp: noDeadGroup_def list_all_iff)
  moreover have "cellAt (fst (capturePass board x y player)) x y = Some (Some player)"
    using capturePass_board(2) [OF wf e, of player] by simp
  ultimately show False using z by simp
qed

section \<open>Neighbours\<close>

text \<open>
  C9. For a coordinate on the board, \<^verbatim>\<open>getNeighbors\<close> returns the orthogonally adjacent
  coordinates that are on the board, each once and in the fixed order left, right, up,
  down: two for a corner, three for another edge cell, four for an interior cell.
\<close>

theorem getNeighbors_correct:
  "isOnBoard x y \<Longrightarrow>
     getNeighbors x y
       = filter (\<lambda>(a, b). isOnBoard a b) [(x - 1, y), (x + 1, y), (x, y - 1), (x, y + 1)]
     \<and> set (getNeighbors x y) = {(a, b). isOnBoard a b \<and> \<bar>a - x\<bar> + \<bar>b - y\<bar> = 1}
     \<and> distinct (getNeighbors x y)
     \<and> length (getNeighbors x y) =
         (if onEdge x \<and> onEdge y then 2 else if onEdge x \<or> onEdge y then 3 else 4)"
proof (intro conjI)
  assume on: "isOnBoard x y"
  show "getNeighbors x y
       = filter (\<lambda>(a, b). isOnBoard a b) [(x - 1, y), (x + 1, y), (x, y - 1), (x, y + 1)]"
    using on by (auto simp: getNeighbors_def isOnBoard_def BOARD_SIZE_def)
  show "set (getNeighbors x y) = {(a, b). isOnBoard a b \<and> \<bar>a - x\<bar> + \<bar>b - y\<bar> = 1}"
    using on by (auto simp: getNeighbors_def isOnBoard_def BOARD_SIZE_def)
  show "distinct (getNeighbors x y)" by (rule getNeighbors_distinct)
  show "length (getNeighbors x y) =
         (if onEdge x \<and> onEdge y then 2 else if onEdge x \<or> onEdge y then 3 else 4)"
    using on by (rule getNeighbors_length)
qed

text \<open>The corner (0, 0), the edge cell (18, 7) and the interior cell (3, 4).\<close>

theorem getNeighbors_correct_witness:
  "getNeighbors 0 0 = [(1, 0), (0, 1)]
   \<and> getNeighbors 18 7 = [(17, 7), (18, 6), (18, 8)]
   \<and> getNeighbors 3 4 = [(2, 4), (4, 4), (3, 3), (3, 5)]
   \<and> length (getNeighbors 0 0) = 2 \<and> length (getNeighbors 18 7) = 3
   \<and> length (getNeighbors 3 4) = 4"
  using getNeighbors_correct [of 0 0] getNeighbors_correct [of 18 7]
    getNeighbors_correct [of 3 4]
  by (simp add: isOnBoard_def onEdge_def BOARD_SIZE_def)

section \<open>The group and liberty resolver\<close>

text \<open>
  C8. On a board of the right shape and for an occupied seed, \<^verbatim>\<open>getGroupAndLiberties\<close>
  returns the group of the seed (the stones of its colour connected to it by orthogonal
  steps, each once) and, as liberty count, the number of distinct empty cells orthogonally
  adjacent to a member of the group: the count is the cardinality of a set, so an empty
  cell next to two stones counts once. A lone stone on the otherwise empty board has two
  liberties in a corner, three on an edge and four in the interior.
\<close>

theorem getGroupAndLiberties_correct:
  "(wf_board board \<and> cellAt board x y = Some (Some color) \<longrightarrow>
      snd (getGroupAndLiberties board x y)
        = card {e. emptyAt board e \<and> (\<exists>p\<in>specGroup board color (x, y). orthAdjacent p e)}
      \<and> set (fst (getGroupAndLiberties board x y)) = specGroup board color (x, y)
      \<and> distinct (fst (getGroupAndLiberties board x y)))
   \<and> (isOnBoard x y \<longrightarrow>
        snd (getGroupAndLiberties (setCell emptyBoard x y (Some color)) x y)
          = (if onEdge x \<and> onEdge y then 2 else if onEdge x \<or> onEdge y then 3 else 4))"
proof (intro conjI impI)
  assume "wf_board board \<and> cellAt board x y = Some (Some color)"
  then have wf: "wf_board board" and st: "stoneAt board color (x, y)"
    by (simp_all add: stoneAt_def)
  note r = getGroupAndLiberties_stone [OF st]
  show "snd (getGroupAndLiberties board x y)
        = card {e. emptyAt board e \<and> (\<exists>p\<in>specGroup board color (x, y). orthAdjacent p e)}"
    using r(3) libertiesOf_spec [OF wf st] groupOf_spec [OF wf]
    by (simp add: specLiberties_def)
  show "set (fst (getGroupAndLiberties board x y)) = specGroup board color (x, y)"
    using r(1) groupOf_spec [OF wf] by simp
  show "distinct (fst (getGroupAndLiberties board x y))" by (rule r(2))
next
  assume "isOnBoard x y"
  then show "snd (getGroupAndLiberties (setCell emptyBoard x y (Some color)) x y)
          = (if onEdge x \<and> onEdge y then 2 else if onEdge x \<or> onEdge y then 3 else 4)"
    by (simp only: lone_stone getNeighbors_length)
qed

text \<open>
  Three black stones in an L: the empty cell (2, 2) is next to two of them, and the count
  is 7, not the per-stone sum 8.
\<close>

theorem getGroupAndLiberties_correct_witness:
  "snd (getGroupAndLiberties lBoard 1 1) = 7
   \<and> card {e. emptyAt lBoard e \<and> (\<exists>p\<in>specGroup lBoard Black (1, 1). orthAdjacent p e)} = 7
   \<and> set (fst (getGroupAndLiberties lBoard 1 1)) = specGroup lBoard Black (1, 1)
   \<and> fst (getGroupAndLiberties lBoard 1 1) = [(1, 1), (2, 1), (1, 2)]
   \<and> snd (getGroupAndLiberties (setCell emptyBoard 0 18 (Some White)) 0 18) = 2
   \<and> snd (getGroupAndLiberties (setCell emptyBoard 5 0 (Some White)) 5 0) = 3
   \<and> snd (getGroupAndLiberties (setCell emptyBoard 9 9 (Some Black)) 9 9) = 4"
proof -
  have w: "wf_board lBoard" by code_simp
  have c: "cellAt lBoard 1 1 = Some (Some Black)" by code_simp
  have v: "getGroupAndLiberties lBoard 1 1 = ([(1, 1), (2, 1), (1, 2)], 7)" by code_simp
  have o: "isOnBoard 0 18" "isOnBoard 5 0" "isOnBoard 9 9" by code_simp+
  have e: "onEdge 0" "onEdge 18" "\<not> onEdge 5" "\<not> onEdge 9" by code_simp+
  show ?thesis
    using getGroupAndLiberties_correct [of lBoard 1 1 Black] w c v
      getGroupAndLiberties_correct [of lBoard 0 18 White] getGroupAndLiberties_correct [of lBoard 5 0 White]
      getGroupAndLiberties_correct [of lBoard 9 9 Black] o e
    by simp
qed

section \<open>The capture pass\<close>

text \<open>
  C3. For a board of the right shape and a target on the grid, let \<open>specPlaced\<close> be the
  board with the stone of the mover on the target, and \<open>specCaptured\<close> the stones of
  all groups of the other colour that touch the target and have no liberty on that board.
  The capture pass empties exactly the cells of \<open>specCaptured\<close>, every member of
  every such group and not only the first group found, and leaves every other cell as on
  \<open>specPlaced\<close>; the count it returns is the number of stones in \<open>specCaptured\<close>;
  and the result is the same for every order in which the neighbours are processed.
\<close>

theorem capturePass_captures_all:
  "wf_board board \<Longrightarrow> isOnBoard x y \<Longrightarrow>
     (\<forall>x' y'. cellAt (fst (capturePass board x y player)) x' y' =
        (if (x', y') \<in> specCaptured board x y player then Some None
         else cellAt (specPlaced board x y player) x' y'))
     \<and> snd (capturePass board x y player) = card (specCaptured board x y player)
     \<and> (\<forall>ns. set ns = set (getNeighbors x y) \<longrightarrow>
          foldl (captureNeighbor (opponentOf player)) (placed board x y player, 0) ns
            = capturePass board x y player)"
proof (intro conjI allI impI)
  assume wf: "wf_board board" and on: "isOnBoard x y"
  note inv = capturePass_inv [OF wf, of x y player]
  fix x' y'
  show "cellAt (fst (capturePass board x y player)) x' y' =
        (if (x', y') \<in> specCaptured board x y player then Some None
         else cellAt (specPlaced board x y player) x' y')"
    using inv deadStones_spec [OF wf on, of player] placed_spec [OF wf on, of player]
    by (simp add: capInv_def deadStones_captured)
next
  assume wf: "wf_board board" and on: "isOnBoard x y"
  show "snd (capturePass board x y player) = card (specCaptured board x y player)"
    using capturePass_inv [OF wf, of x y player] deadStones_spec [OF wf on, of player]
    by (simp add: capInv_def deadStones_captured)
next
  fix ns assume wf: "wf_board board" and ns: "set ns = set (getNeighbors x y)"
  have "capInv (placed board x y player) (captured board x y player)
          (foldl (captureNeighbor (opponentOf player)) (placed board x y player, 0) ns)"
    using capturePass_any_order [OF wf, of x y player ns] by (simp add: ns captured_def)
  then show "foldl (captureNeighbor (opponentOf player)) (placed board x y player, 0) ns
            = capturePass board x y player"
    using capturePass_inv [OF wf, of x y player] by (rule capInv_unique)
qed

text \<open>
  White plays (0, 1) next to the black stone at (0, 0) and the black pair (0, 2), (0, 3),
  both on their last liberty: three stones are taken, in either order. Black plays
  (2, 1) on \<open>koBefore\<close> and takes the white stone at (1, 1).
\<close>

theorem capturePass_captures_all_witness:
  "snd (capturePass twoGroupsBoard 0 1 White) = 3
   \<and> card (specCaptured twoGroupsBoard 0 1 White) = 3
   \<and> (0, 0) \<in> specCaptured twoGroupsBoard 0 1 White
   \<and> (0, 2) \<in> specCaptured twoGroupsBoard 0 1 White
   \<and> (0, 3) \<in> specCaptured twoGroupsBoard 0 1 White
   \<and> cellAt (fst (capturePass twoGroupsBoard 0 1 White)) 0 0 = Some None
   \<and> cellAt (fst (capturePass twoGroupsBoard 0 1 White)) 0 2 = Some None
   \<and> cellAt (fst (capturePass twoGroupsBoard 0 1 White)) 0 3 = Some None
   \<and> foldl (captureNeighbor Black) (placed twoGroupsBoard 0 1 White, 0) [(0, 2), (0, 0), (1, 1)]
       = capturePass twoGroupsBoard 0 1 White
   \<and> snd (capturePass koBefore 2 1 Black) = 1
   \<and> card (specCaptured koBefore 2 1 Black) = 1
   \<and> (1, 1) \<in> specCaptured koBefore 2 1 Black
   \<and> cellAt (fst (capturePass koBefore 2 1 Black)) 1 1 = Some None"
proof -
  have w: "wf_board twoGroupsBoard" "wf_board koBefore" by code_simp+
  have o: "isOnBoard 0 1" "isOnBoard 2 1" by code_simp+
  have n: "set [(0, 2), (0, 0), (1, 1)] = set (getNeighbors 0 1)" by code_simp
  have c: "snd (capturePass twoGroupsBoard 0 1 White) = 3"
    "snd (capturePass koBefore 2 1 Black) = 1" by code_simp+
  have e: "cellAt (fst (capturePass twoGroupsBoard 0 1 White)) 0 0 = Some None"
    "cellAt (fst (capturePass twoGroupsBoard 0 1 White)) 0 2 = Some None"
    "cellAt (fst (capturePass twoGroupsBoard 0 1 White)) 0 3 = Some None"
    "cellAt (fst (capturePass koBefore 2 1 Black)) 1 1 = Some None"
    by code_simp+
  have p: "cellAt (specPlaced twoGroupsBoard 0 1 White) 0 0 \<noteq> Some None"
    "cellAt (specPlaced twoGroupsBoard 0 1 White) 0 2 \<noteq> Some None"
    "cellAt (specPlaced twoGroupsBoard 0 1 White) 0 3 \<noteq> Some None"
    "cellAt (specPlaced koBefore 2 1 Black) 1 1 \<noteq> Some None"
    by code_simp+
  have opp: "opponentOf White = Black" by code_simp
  note t = capturePass_captures_all [OF w(1) o(1), of White]
  note u = capturePass_captures_all [OF w(2) o(2), of Black]
  from t have t1: "\<And>x' y'. cellAt (fst (capturePass twoGroupsBoard 0 1 White)) x' y' =
        (if (x', y') \<in> specCaptured twoGroupsBoard 0 1 White then Some None
         else cellAt (specPlaced twoGroupsBoard 0 1 White) x' y')" by blast
  from u have u1: "\<And>x' y'. cellAt (fst (capturePass koBefore 2 1 Black)) x' y' =
        (if (x', y') \<in> specCaptured koBefore 2 1 Black then Some None
         else cellAt (specPlaced koBefore 2 1 Black) x' y')" by blast
  have m: "(0, 0) \<in> specCaptured twoGroupsBoard 0 1 White"
    "(0, 2) \<in> specCaptured twoGroupsBoard 0 1 White"
    "(0, 3) \<in> specCaptured twoGroupsBoard 0 1 White"
    using t1 [of 0 0] t1 [of 0 2] t1 [of 0 3] e(1,2,3) p(1,2,3)
    by (auto split: if_splits)
  have m': "(1, 1) \<in> specCaptured koBefore 2 1 Black"
    using u1 [of 1 1] e(4) p(4) by (auto split: if_splits)
  from t c have k: "card (specCaptured twoGroupsBoard 0 1 White) = 3" by simp
  from u c have k': "card (specCaptured koBefore 2 1 Black) = 1" by simp
  from t n have f:
    "foldl (captureNeighbor (opponentOf White)) (placed twoGroupsBoard 0 1 White, 0)
       [(0, 2), (0, 0), (1, 1)] = capturePass twoGroupsBoard 0 1 White"
    by blast
  have f': "foldl (captureNeighbor Black) (placed twoGroupsBoard 0 1 White, 0)
       [(0, 2), (0, 0), (1, 1)] = capturePass twoGroupsBoard 0 1 White"
    using f by (simp only: opp)
  show ?thesis
    by (intro conjI c k m e f' k' m')
qed

section \<open>Rejections before any placement\<close>

text \<open>
  C5. The bounds check comes first: for a coordinate off the grid the result is
  \<open>OutOfBounds\<close>, whatever the board holds. For a coordinate on the grid whose cell is
  not empty the result is \<open>Occupied\<close>. In both cases the store is returned as it was:
  no array is allocated and none is written, so the board of the caller is unchanged.
\<close>

theorem tryMakeMove_early_rejections:
  "(\<not> isOnBoard x y \<longrightarrow>
      tryMakeMoveS s b x y player history = (failure OutOfBounds, s)
      \<and> tryMakeMove board x y player history = failure OutOfBounds)
   \<and> (isOnBoard x y \<and> cellAt (readBoard s b) x y \<noteq> Some None \<longrightarrow>
      tryMakeMoveS s b x y player history = (failure Occupied, s))
   \<and> (isOnBoard x y \<and> cellAt board x y \<noteq> Some None \<longrightarrow>
      tryMakeMove board x y player history = failure Occupied)"
  by (simp add: tryMakeMoveS_def tryMakeMove_def)

theorem tryMakeMove_early_rejections_witness:
  "tryMakeMoveS lBoard rowRefs 19 0 Black [] = (failure OutOfBounds, lBoard)
   \<and> tryMakeMoveS lBoard rowRefs 3 (- 1) Black [] = (failure OutOfBounds, lBoard)
   \<and> tryMakeMoveS lBoard rowRefs 2 1 White [] = (failure Occupied, lBoard)
   \<and> tryMakeMove lBoard 2 1 White [] = failure Occupied"
proof -
  have "\<not> isOnBoard 19 0" "\<not> isOnBoard 3 (- 1)" "isOnBoard 2 1" by code_simp+
  moreover have "cellAt (readBoard lBoard rowRefs) 2 1 \<noteq> Some None" by code_simp
  moreover have "cellAt lBoard 2 1 \<noteq> Some None" by code_simp
  ultimately show ?thesis
    using tryMakeMove_early_rejections [of 19 0 lBoard rowRefs Black "[]" lBoard]
      tryMakeMove_early_rejections [of 3 "- 1" lBoard rowRefs Black "[]" lBoard]
      tryMakeMove_early_rejections [of 2 1 lBoard rowRefs White "[]" lBoard]
    by simp
qed

section \<open>No mutation of the arguments, and determinism\<close>

text \<open>
  C7. A call of \<^verbatim>\<open>tryMakeMove\<close> leaves every array that existed before the call as it
  was, so the board of the caller has the contents it had, whether the move is accepted
  or rejected; all writes go to the rows that \<^verbatim>\<open>copyBoard\<close> allocated, and a returned
  board consists of these new rows only. The history is only read. What the caller gets
  back is a function of the contents of the board, the coordinates, the player and the
  history: two calls with the same inputs give the same result.
\<close>

theorem tryMakeMove_pure:
  "validBoard s b \<Longrightarrow>
     extends s (snd (tryMakeMoveS s b x y player history))
     \<and> readBoard (snd (tryMakeMoveS s b x y player history)) b = readBoard s b
     \<and> (\<forall>nb. newBoard (fst (tryMakeMoveS s b x y player history)) = Some nb \<longrightarrow>
          freshBoard (length s) (snd (tryMakeMoveS s b x y player history)) nb)
     \<and> readResult (snd (tryMakeMoveS s b x y player history))
          (fst (tryMakeMoveS s b x y player history))
        = tryMakeMove (readBoard s b) x y player history
     \<and> (\<forall>s' b'. validBoard s' b' \<and> readBoard s' b' = readBoard s b \<longrightarrow>
          readResult (snd (tryMakeMoveS s' b' x y player history))
            (fst (tryMakeMoveS s' b' x y player history))
          = readResult (snd (tryMakeMoveS s b x y player history))
              (fst (tryMakeMoveS s b x y player history)))"
proof (intro conjI allI impI)
  assume v: "validBoard s b"
  note r = tryMakeMoveS_refines [OF v, of x y player history]
  show "extends s (snd (tryMakeMoveS s b x y player history))" by (rule r(2))
  then show "readBoard (snd (tryMakeMoveS s b x y player history)) b = readBoard s b"
    using v by (rule extends_readBoard)
  show "readResult (snd (tryMakeMoveS s b x y player history))
          (fst (tryMakeMoveS s b x y player history))
        = tryMakeMove (readBoard s b) x y player history" by (rule r(1))
next
  fix nb
  assume v: "validBoard s b"
    and "newBoard (fst (tryMakeMoveS s b x y player history)) = Some nb"
  then show "freshBoard (length s) (snd (tryMakeMoveS s b x y player history)) nb"
    using tryMakeMoveS_refines(3) [OF v, of x y player history] by blast
next
  fix s' b'
  assume v: "validBoard s b" and "validBoard s' b' \<and> readBoard s' b' = readBoard s b"
  then show "readResult (snd (tryMakeMoveS s' b' x y player history))
            (fst (tryMakeMoveS s' b' x y player history))
          = readResult (snd (tryMakeMoveS s b x y player history))
              (fst (tryMakeMoveS s b x y player history))"
    using tryMakeMoveS_refines(1) [of s' b' x y player history]
      tryMakeMoveS_refines(1) [OF v, of x y player history] by simp
qed

text \<open>
  An accepted move with captures, and a rejected one, on a store that holds one board:
  after the call the 19 rows of that board are as before, and the accepted move returns
  the 19 new rows.
\<close>

theorem tryMakeMove_pure_witness:
  "readBoard (snd (tryMakeMoveS twoGroupsBoard rowRefs 0 1 White [])) rowRefs = twoGroupsBoard
   \<and> newBoard (fst (tryMakeMoveS twoGroupsBoard rowRefs 0 1 White [])) = Some [19 ..< 38]
   \<and> capturedCount (fst (tryMakeMoveS twoGroupsBoard rowRefs 0 1 White [])) = Some 3
   \<and> readResult (snd (tryMakeMoveS twoGroupsBoard rowRefs 0 1 White []))
        (fst (tryMakeMoveS twoGroupsBoard rowRefs 0 1 White []))
      = tryMakeMove twoGroupsBoard 0 1 White []
   \<and> readBoard (snd (tryMakeMoveS suicideBoard rowRefs 0 0 Black [])) rowRefs = suicideBoard
   \<and> fst (tryMakeMoveS suicideBoard rowRefs 0 0 Black []) = failure Suicide"
proof -
  have v: "validBoard twoGroupsBoard rowRefs" "validBoard suicideBoard rowRefs" by code_simp+
  have r: "readBoard twoGroupsBoard rowRefs = twoGroupsBoard"
    "readBoard suicideBoard rowRefs = suicideBoard" by code_simp+
  have n: "newBoard (fst (tryMakeMoveS twoGroupsBoard rowRefs 0 1 White [])) = Some [19 ..< 38]"
    by code_simp
  have c: "capturedCount (fst (tryMakeMoveS twoGroupsBoard rowRefs 0 1 White [])) = Some 3"
    by code_simp
  have f: "fst (tryMakeMoveS suicideBoard rowRefs 0 0 Black []) = failure Suicide"
    by code_simp
  show ?thesis
    using tryMakeMove_pure [OF v(1), of 0 1 White "[]"]
      tryMakeMove_pure [OF v(2), of 0 0 Black "[]"] r n c f
    by simp
qed

section \<open>Suicide\<close>

text \<open>
  C4. For a board of the right shape and an empty target on the grid: the move is
  rejected with \<open>Suicide\<close> exactly when, on the board after placement and captures, the
  group of the new stone has no liberty. The store after the call extends the store
  before it, so the board of the caller is unchanged: placement and captures were made
  on the copy, which is not returned.
\<close>

theorem tryMakeMove_suicide:
  "validBoard s b \<Longrightarrow> wf_board (readBoard s b) \<Longrightarrow> isOnBoard x y \<Longrightarrow>
   cellAt (readBoard s b) x y = Some None \<Longrightarrow>
     ((specLiberties (fst (capturePass (readBoard s b) x y player))
         (specGroup (fst (capturePass (readBoard s b) x y player)) player (x, y)) = {})
        = (fst (tryMakeMoveS s b x y player history) = failure Suicide))
     \<and> (fst (tryMakeMoveS s b x y player history) = failure Suicide)
        = (tryMakeMove (readBoard s b) x y player history = failure Suicide)
     \<and> readBoard (snd (tryMakeMoveS s b x y player history)) b = readBoard s b
     \<and> extends s (snd (tryMakeMoveS s b x y player history))"
proof -
  assume v: "validBoard s b" and wf: "wf_board (readBoard s b)" and on: "isOnBoard x y"
    and e: "cellAt (readBoard s b) x y = Some None"
  let ?board = "readBoard s b"
  let ?B = "fst (capturePass ?board x y player)"
  let ?r = "tryMakeMoveS s b x y player history"
  note cb = capturePass_board [OF wf e, of player]
  have st: "cellAt ?B x y = Some (Some player)" using cb(2) by simp
  note rs = resolver_spec [OF cb(1) st]
  note rf = tryMakeMoveS_refines [OF v, of x y player history]
  have su: "tryMakeMove ?board x y player history = failure Suicide
              \<longleftrightarrow> snd (getGroupAndLiberties ?B x y) = 0"
    using on e
    by (auto simp: tryMakeMove_unfold failure_def Suicide_def KoViolation_def)
  have fs: "fst ?r = failure Suicide \<longleftrightarrow> tryMakeMove ?board x y player history = failure Suicide"
  proof
    assume "fst ?r = failure Suicide"
    then show "tryMakeMove ?board x y player history = failure Suicide"
      using rf(1) by (simp add: readResult_def failure_def)
  next
    assume a: "tryMakeMove ?board x y player history = failure Suicide"
    have "newBoard (fst ?r) = None"
      using rf(1) a by (auto simp: readResult_def failure_def dest: arg_cong [where f = newBoard])
    then show "fst ?r = failure Suicide"
      using rf(1) a by (cases "fst ?r") (auto simp: readResult_def failure_def)
  qed
  have "specLiberties ?B (specGroup ?B player (x, y)) = {}
          \<longleftrightarrow> snd (getGroupAndLiberties ?B x y) = 0"
    using rs(1,2) by simp
  then have "(specLiberties ?B (specGroup ?B player (x, y)) = {}) = (fst ?r = failure Suicide)"
    using su fs by simp
  moreover have "readBoard (snd ?r) b = readBoard s b"
    using rf(2) v by (rule extends_readBoard)
  ultimately show ?thesis using fs rf(2) by blast
qed

text \<open>
  Black plays the corner (0, 0) with white stones on (1, 0) and (0, 1): nothing is
  captured and the new stone has no liberty.
\<close>

theorem tryMakeMove_suicide_witness:
  "specLiberties (fst (capturePass suicideBoard 0 0 Black))
      (specGroup (fst (capturePass suicideBoard 0 0 Black)) Black (0, 0)) = {}
   \<and> fst (tryMakeMoveS suicideBoard rowRefs 0 0 Black []) = failure Suicide
   \<and> tryMakeMove suicideBoard 0 0 Black [] = failure Suicide
   \<and> readBoard (snd (tryMakeMoveS suicideBoard rowRefs 0 0 Black [])) rowRefs = suicideBoard"
proof -
  have v: "validBoard suicideBoard rowRefs" by code_simp
  have r: "readBoard suicideBoard rowRefs = suicideBoard" by code_simp
  have w: "wf_board suicideBoard" by code_simp
  have o: "isOnBoard 0 0" by code_simp
  have e: "cellAt suicideBoard 0 0 = Some None" by code_simp
  have f: "fst (tryMakeMoveS suicideBoard rowRefs 0 0 Black []) = failure Suicide" by code_simp
  show ?thesis
    using tryMakeMove_suicide [of suicideBoard rowRefs 0 0 Black "[]"] v w o e f
    by (simp add: r)
qed

section \<open>The cells a successful move changes\<close>

text \<open>
  C10. When a move on a board of the right shape succeeds, the target cell was empty and
  holds the stone of the mover on the returned board; the cells of \<open>specCaptured\<close>,
  the groups of the other colour that touch the target and have no liberty once the stone
  is placed, held stones of the other colour and are empty on the returned board; every
  other cell holds what it held on the input board. The count returned is the number of
  captured stones.
\<close>

theorem tryMakeMove_frame:
  "wf_board board \<Longrightarrow> success (tryMakeMove board x y player history) \<Longrightarrow>
     (\<exists>nb. newBoard (tryMakeMove board x y player history) = Some nb \<and> wf_board nb
        \<and> (\<forall>x' y'. cellAt nb x' y' =
              (if (x', y') = (x, y) then Some (Some player)
               else if (x', y') \<in> specCaptured board x y player then Some None
               else cellAt board x' y')))
     \<and> isOnBoard x y \<and> cellAt board x y = Some None
     \<and> (x, y) \<notin> specCaptured board x y player
     \<and> (\<forall>q\<in>specCaptured board x y player.
           \<exists>c. c \<noteq> player \<and> cellAt board (fst q) (snd q) = Some (Some c))
     \<and> capturedCount (tryMakeMove board x y player history)
          = Some (card (specCaptured board x y player))"
proof -
  assume wf: "wf_board board" and s: "success (tryMakeMove board x y player history)"
  from s have on: "isOnBoard x y" and e: "cellAt board x y = Some None"
    by (auto simp: tryMakeMove_unfold failure_def split: if_splits)
  note cb = capturePass_board [OF wf e, of player, unfolded deadStones_spec [OF wf on]]
  from s have r: "tryMakeMove board x y player history =
      \<lparr>success = True, newBoard = Some (fst (capturePass board x y player)),
       capturedCount = Some (snd (capturePass board x y player)), error = None\<rparr>"
    by (auto simp: tryMakeMove_unfold failure_def split: if_splits)
  have "\<forall>q\<in>specCaptured board x y player.
           \<exists>c. c \<noteq> player \<and> cellAt board (fst q) (snd q) = Some (Some c)"
    using cb(4) opponentOf_neq [of player] by blast
  then show ?thesis
    using cb(1,2,3,5) on e by (simp add: r)
qed

text \<open>
  White takes two groups at once on \<open>twoGroupsBoard\<close>, and Black takes the white stone
  at (1, 1) on \<open>koBefore\<close>, which gives \<open>koBoard\<close>.
\<close>

theorem tryMakeMove_frame_witness:
  "(\<exists>nb. newBoard (tryMakeMove twoGroupsBoard 0 1 White []) = Some nb \<and> wf_board nb
      \<and> (\<forall>x' y'. cellAt nb x' y' =
            (if (x', y') = (0, 1) then Some (Some White)
             else if (x', y') \<in> specCaptured twoGroupsBoard 0 1 White then Some None
             else cellAt twoGroupsBoard x' y')))
   \<and> card (specCaptured twoGroupsBoard 0 1 White) = 3
   \<and> capturedCount (tryMakeMove twoGroupsBoard 0 1 White []) = Some 3
   \<and> (\<exists>nb. newBoard (tryMakeMove koBefore 2 1 Black []) = Some nb \<and> wf_board nb
      \<and> (\<forall>x' y'. cellAt nb x' y' =
            (if (x', y') = (2, 1) then Some (Some Black)
             else if (x', y') \<in> specCaptured koBefore 2 1 Black then Some None
             else cellAt koBefore x' y')))
   \<and> card (specCaptured koBefore 2 1 Black) = 1
   \<and> (1, 1) \<in> specCaptured koBefore 2 1 Black
   \<and> newBoard (tryMakeMove koBefore 2 1 Black []) = Some koBoard"
proof -
  have w: "wf_board twoGroupsBoard" "wf_board koBefore" by code_simp+
  have s: "success (tryMakeMove twoGroupsBoard 0 1 White [])"
    "success (tryMakeMove koBefore 2 1 Black [])" by code_simp+
  have c: "capturedCount (tryMakeMove twoGroupsBoard 0 1 White []) = Some 3"
    "capturedCount (tryMakeMove koBefore 2 1 Black []) = Some 1" by code_simp+
  have b: "newBoard (tryMakeMove koBefore 2 1 Black []) = Some koBoard" by code_simp
  have v: "cellAt koBoard 1 1 = Some None" "cellAt koBefore 1 1 \<noteq> Some None" by code_simp+
  note t = tryMakeMove_frame [OF w(1) s(1)]
  note u = tryMakeMove_frame [OF w(2) s(2)]
  from u b have u1: "\<And>x' y'. cellAt koBoard x' y' =
            (if (x', y') = (2, 1) then Some (Some Black)
             else if (x', y') \<in> specCaptured koBefore 2 1 Black then Some None
             else cellAt koBefore x' y')" by simp
  have m: "(1, 1) \<in> specCaptured koBefore 2 1 Black"
    using u1 [of 1 1] v by (auto split: if_splits)
  from t c(1) have k: "card (specCaptured twoGroupsBoard 0 1 White) = 3" by simp
  from u c(2) have k': "card (specCaptured koBefore 2 1 Black) = 1" by simp
  from t have t0: "\<exists>nb. newBoard (tryMakeMove twoGroupsBoard 0 1 White []) = Some nb \<and> wf_board nb
      \<and> (\<forall>x' y'. cellAt nb x' y' =
            (if (x', y') = (0, 1) then Some (Some White)
             else if (x', y') \<in> specCaptured twoGroupsBoard 0 1 White then Some None
             else cellAt twoGroupsBoard x' y'))" by blast
  from u have u0: "\<exists>nb. newBoard (tryMakeMove koBefore 2 1 Black []) = Some nb \<and> wf_board nb
      \<and> (\<forall>x' y'. cellAt nb x' y' =
            (if (x', y') = (2, 1) then Some (Some Black)
             else if (x', y') \<in> specCaptured koBefore 2 1 Black then Some None
             else cellAt koBefore x' y'))" by blast
  show ?thesis
    by (intro conjI t0 k c(1) u0 k' m b)
qed

section \<open>Capture before suicide\<close>




section \<open>The ko check\<close>

text \<open>
  C2, as the code has it. The move is rejected with \<open>KoViolation\<close> exactly when it
  reaches the ko check (the target is on the grid and empty, and the move is not suicide
  after its captures), the history has at
  least two entries, and the last but one is the fingerprint of the board after placement
  and captures. The fingerprint is a function of the board contents, and two boards with
  the same fingerprint are the same board. No other entry of the history matters: with
  any other history that has the same last-but-one entry the result is the same.
  In a game, where the last but one entry is the fingerprint of a position \<open>prev\<close> of
  the right shape in which every group has a liberty, a move to an empty cell of the grid
  is rejected with \<open>KoViolation\<close> exactly when the board after placement and captures
  is \<open>prev\<close>: a suicide never repeats such a position.
\<close>

theorem ko_rule:
  "(tryMakeMove board x y player history = failure KoViolation)
     = (isOnBoard x y \<and> cellAt board x y = Some None
        \<and> snd (getGroupAndLiberties (fst (capturePass board x y player)) x y) \<noteq> 0
        \<and> length history > 1
        \<and> history ! (length history - 2) = stringify (fst (capturePass board x y player)))
   \<and> (\<forall>prev. (stringify prev = stringify (fst (capturePass board x y player)))
                = (prev = fst (capturePass board x y player)))
   \<and> (\<forall>h'. (length h' > 1) = (length history > 1)
            \<and> h' ! (length h' - 2) = history ! (length history - 2)
          \<longrightarrow> tryMakeMove board x y player h' = tryMakeMove board x y player history)
   \<and> (\<forall>prev. wf_board board \<and> isOnBoard x y \<and> cellAt board x y = Some None
            \<and> length history > 1 \<and> history ! (length history - 2) = stringify prev
            \<and> wf_board prev \<and> noDeadGroup prev
          \<longrightarrow> (tryMakeMove board x y player history = failure KoViolation)
                = (fst (capturePass board x y player) = prev))"
proof (intro conjI allI impI)
  show "(tryMakeMove board x y player history = failure KoViolation)
     = (isOnBoard x y \<and> cellAt board x y = Some None
        \<and> snd (getGroupAndLiberties (fst (capturePass board x y player)) x y) \<noteq> 0
        \<and> length history > 1
        \<and> history ! (length history - 2) = stringify (fst (capturePass board x y player)))"
    by (auto simp: tryMakeMove_unfold failure_def KoViolation_def Suicide_def Occupied_def
        OutOfBounds_def)
next
  fix prev
  show "(stringify prev = stringify (fst (capturePass board x y player)))
                = (prev = fst (capturePass board x y player))"
    using stringify_inj by auto
next
  fix h'
  assume "(length h' > 1) = (length history > 1)
            \<and> h' ! (length h' - 2) = history ! (length history - 2)"
  then show "tryMakeMove board x y player h' = tryMakeMove board x y player history"
    by (simp add: tryMakeMove_unfold)
next
  fix prev
  assume a: "wf_board board \<and> isOnBoard x y \<and> cellAt board x y = Some None
            \<and> length history > 1 \<and> history ! (length history - 2) = stringify prev
            \<and> wf_board prev \<and> noDeadGroup prev"
  let ?B = "fst (capturePass board x y player)"
  have ko: "(tryMakeMove board x y player history = failure KoViolation)
     = (snd (getGroupAndLiberties ?B x y) \<noteq> 0 \<and> stringify prev = stringify ?B)"
    using a
    by (auto simp: tryMakeMove_unfold failure_def KoViolation_def Suicide_def Occupied_def
        OutOfBounds_def)
  have "?B = prev \<Longrightarrow> snd (getGroupAndLiberties ?B x y) \<noteq> 0"
    using a suicide_board_dead [of board x y player] by auto
  then show "(tryMakeMove board x y player history = failure KoViolation) = (?B = prev)"
    unfolding ko using stringify_inj by auto
qed

text \<open>
  The ko of the two boards above. Right after Black took the ko, White may not retake:
  the board would be \<open>koBefore\<close> again, which is the last but one entry. After the
  exchange (10, 10), (12, 12) the same retake is accepted, although \<open>koBefore\<close> is
  still in the history, four plies back.
\<close>

theorem ko_rule_witness:
  "tryMakeMove koBefore 2 1 Black [stringify koBefore]
     = \<lparr>success = True, newBoard = Some koBoard, capturedCount = Some 1, error = None\<rparr>
   \<and> fst (capturePass koBoard 1 1 White) = koBefore
   \<and> noDeadGroup koBefore
   \<and> tryMakeMove koBoard 1 1 White [stringify koBefore, stringify koBoard]
       = failure KoViolation
   \<and> tryMakeMove koBoard 1 1 White [stringify koBoard, stringify koBefore, stringify koBoard]
       = failure KoViolation
   \<and> success (tryMakeMove koAnswered 1 1 White
        [stringify koBefore, stringify koBoard, stringify koElsewhere, stringify koAnswered])
   \<and> tryMakeMove koAnswered 1 1 White
        [stringify koBefore, stringify koBoard, stringify koElsewhere, stringify koAnswered]
      \<noteq> failure KoViolation"
proof -
  have a: "tryMakeMove koBefore 2 1 Black [stringify koBefore]
     = \<lparr>success = True, newBoard = Some koBoard, capturedCount = Some 1, error = None\<rparr>"
    by code_simp
  have b: "fst (capturePass koBoard 1 1 White) = koBefore" by code_simp
  have c: "isOnBoard 1 1" "cellAt koBoard 1 1 = Some None"
    "snd (getGroupAndLiberties (fst (capturePass koBoard 1 1 White)) 1 1) \<noteq> 0"
    by code_simp+
  have d: "success (tryMakeMove koAnswered 1 1 White
        [stringify koBefore, stringify koBoard, stringify koElsewhere, stringify koAnswered])"
    by code_simp
  have e: "stringify koElsewhere \<noteq> stringify (fst (capturePass koAnswered 1 1 White))"
    by code_simp
  have w: "wf_board koBoard" "wf_board koBefore" "noDeadGroup koBefore" by code_simp+
  note k4 = ko_rule [of koBoard 1 1 White "[stringify koBefore, stringify koBoard]",
      THEN conjunct2, THEN conjunct2, THEN conjunct2, THEN spec, of koBefore]
  note k3 = ko_rule [of koBoard 1 1 White "[stringify koBefore, stringify koBoard]",
      THEN conjunct2, THEN conjunct2, THEN conjunct1, THEN spec,
      of "[stringify koBoard, stringify koBefore, stringify koBoard]"]
  note k2 = ko_rule [of koAnswered 1 1 White
        "[stringify koBefore, stringify koBoard, stringify koElsewhere, stringify koAnswered]",
      THEN conjunct1]
  have f: "tryMakeMove koBoard 1 1 White [stringify koBefore, stringify koBoard]
       = failure KoViolation"
    using k4 w b c(1,2) by simp
  have g: "tryMakeMove koBoard 1 1 White [stringify koBoard, stringify koBefore, stringify koBoard]
       = failure KoViolation"
    using k3 f by simp
  have h: "tryMakeMove koAnswered 1 1 White
        [stringify koBefore, stringify koBoard, stringify koElsewhere, stringify koAnswered]
      \<noteq> failure KoViolation"
    using k2 e by simp
  show ?thesis by (intro conjI a b w(3) f g d h)
qed

text \<open>
  The claim as stated, without the condition that the move reaches the ko check, fails:
  Black's suicide at (0, 0) on \<open>suicideBoard\<close>, with a history whose last but one
  entry is the fingerprint of the board after placement, is rejected with \<open>Suicide\<close>
  and not with \<open>KoViolation\<close>, because the suicide check comes before the ko check.
\<close>

theorem ko_rule_counterexample:
  "isOnBoard 0 0 \<and> cellAt suicideBoard 0 0 = Some None
   \<and> 1 < length [stringify (fst (capturePass suicideBoard 0 0 Black)), stringify suicideBoard]
   \<and> [stringify (fst (capturePass suicideBoard 0 0 Black)), stringify suicideBoard]
        ! (length [stringify (fst (capturePass suicideBoard 0 0 Black)), stringify suicideBoard]
            - 2)
      = stringify (fst (capturePass suicideBoard 0 0 Black))
   \<and> tryMakeMove suicideBoard 0 0 Black
        [stringify (fst (capturePass suicideBoard 0 0 Black)), stringify suicideBoard]
      = failure Suicide
   \<and> tryMakeMove suicideBoard 0 0 Black
        [stringify (fst (capturePass suicideBoard 0 0 Black)), stringify suicideBoard]
      \<noteq> failure KoViolation"
proof -
  have a: "isOnBoard 0 0" "cellAt suicideBoard 0 0 = Some None"
    "snd (getGroupAndLiberties (fst (capturePass suicideBoard 0 0 Black)) 0 0) = 0"
    by code_simp+
  have s: "tryMakeMove suicideBoard 0 0 Black
        [stringify (fst (capturePass suicideBoard 0 0 Black)), stringify suicideBoard]
      = failure Suicide"
    using a by (simp add: tryMakeMove_unfold)
  have "failure Suicide \<noteq> (failure KoViolation :: BoardState MoveResult)"
    by (simp add: failure_def Suicide_def KoViolation_def)
  with s a show ?thesis by simp
qed

section \<open>No group without liberties on a returned board\<close>

text \<open>
  C6. If on a board of the right shape every group has a liberty, then on the board
  returned by a successful move every group has a liberty too. \<open>noDeadGroup\<close> says it
  with the resolver of the code; the second and third line say the same with the groups
  and liberties of the specification.
\<close>

theorem no_dead_group_preserved:
  "wf_board board \<Longrightarrow> noDeadGroup board \<Longrightarrow>
   success (tryMakeMove board x y player history) \<Longrightarrow>
     (\<exists>nb. newBoard (tryMakeMove board x y player history) = Some nb
        \<and> wf_board nb \<and> noDeadGroup nb
        \<and> (\<forall>c p. cellAt nb (fst p) (snd p) = Some (Some c) \<longrightarrow>
                  specLiberties nb (specGroup nb c p) \<noteq> {}))
     \<and> (\<forall>c p. cellAt board (fst p) (snd p) = Some (Some c) \<longrightarrow>
                  specLiberties board (specGroup board c p) \<noteq> {})"
proof -
  assume wf: "wf_board board" and nd: "noDeadGroup board"
    and s: "success (tryMakeMove board x y player history)"
  let ?F = "fst (capturePass board x y player)"
  from s have on: "isOnBoard x y" and e: "cellAt board x y = Some None"
    and l: "snd (getGroupAndLiberties ?F x y) \<noteq> 0"
    and r: "newBoard (tryMakeMove board x y player history) = Some ?F"
    by (auto simp: tryMakeMove_unfold failure_def split: if_splits)
  note cb = capturePass_board [OF wf e, of player]
  have st: "stoneAt ?F player (x, y)" using cb(2) by (simp add: stoneAt_def)
  have self: "libertiesOf ?F (groupOf ?F player (x, y)) \<noteq> {}"
    using l getGroupAndLiberties_stone(3) [OF st] by auto
  have inv: "\<And>c p. stoneAt board c p \<Longrightarrow> libertiesOf board (groupOf board c p) \<noteq> {}"
    using nd noDeadGroup_iff [OF wf] by blast
  have "\<forall>c p. stoneAt ?F c p \<longrightarrow> libertiesOf ?F (groupOf ?F c p) \<noteq> {}"
    using no_dead_group_after_move [OF wf e inv self] by blast
  then have ndF: "noDeadGroup ?F"
    using noDeadGroup_iff [OF cb(1)] by simp
  show ?thesis
    using r cb(1) ndF noDeadGroup_spec [OF cb(1)] nd noDeadGroup_spec [OF wf] by simp
qed

text \<open>White takes the ko on \<open>koBoard\<close>: the black stone without liberty is gone.\<close>

theorem no_dead_group_preserved_witness:
  "noDeadGroup koBoard
   \<and> newBoard (tryMakeMove koBoard 1 1 White []) = Some koBefore
   \<and> noDeadGroup koBefore
   \<and> specLiberties koBefore (specGroup koBefore White (1, 1)) \<noteq> {}
   \<and> specLiberties koBefore (specGroup koBefore Black (1, 0)) \<noteq> {}"
proof -
  have w: "wf_board koBoard" by code_simp
  have n: "noDeadGroup koBoard" by code_simp
  have s: "success (tryMakeMove koBoard 1 1 White [])" by code_simp
  have b: "newBoard (tryMakeMove koBoard 1 1 White []) = Some koBefore" by code_simp
  have c: "cellAt koBefore (fst (1, 1)) (snd (1, 1)) = Some (Some White)"
    "cellAt koBefore (fst (1, 0)) (snd (1, 0)) = Some (Some Black)" by code_simp+
  from no_dead_group_preserved [OF w n s] b
  have "noDeadGroup koBefore"
    and a: "\<forall>c p. cellAt koBefore (fst p) (snd p) = Some (Some c) \<longrightarrow>
              specLiberties koBefore (specGroup koBefore c p) \<noteq> {}"
    by simp_all
  moreover from a c have "specLiberties koBefore (specGroup koBefore White (1, 1)) \<noteq> {}"
    "specLiberties koBefore (specGroup koBefore Black (1, 0)) \<noteq> {}" by blast+
  ultimately show ?thesis using n b by blast
qed

end
